theory Spec2Isabelle
  imports Main "HOL-Library.Char_ord" "HOL-Library.List_Lexorder"
begin

chapter \<open>The model\<close>

section \<open>JavaScript string operations used by the analysis\<close>

text \<open>
  Strings are lists of characters (code units). The operations below follow the
  JavaScript methods of the same name that \<open>src/lib/github.ts\<close> calls.
\<close>

definition startsWith :: "string \<Rightarrow> string \<Rightarrow> bool" where
  "startsWith s p = (take (length p) s = p)"

definition endsWith :: "string \<Rightarrow> string \<Rightarrow> bool" where
  "endsWith s p = (length p \<le> length s \<and> drop (length s - length p) s = p)"

fun includesStr :: "string \<Rightarrow> string \<Rightarrow> bool" where
  "includesStr [] t = (t = [])"
| "includesStr (c # cs) t = (startsWith (c # cs) t \<or> includesStr cs t)"

text \<open>\<open>charAt\<close> returns the empty string out of range.\<close>

definition charAt :: "string \<Rightarrow> nat \<Rightarrow> string" where
  "charAt s i = (if i < length s then [s ! i] else [])"

text \<open>\<open>lastIndexOf\<close> returns \<open>-1\<close> when the character does not occur.\<close>

fun lastIndexOf :: "string \<Rightarrow> char \<Rightarrow> int" where
  "lastIndexOf [] c = - 1"
| "lastIndexOf (x # xs) c =
     (let r = lastIndexOf xs c
      in if r \<noteq> - 1 then r + 1 else if x = c then 0 else - 1)"

section \<open>Archive analysis: common root folder\<close>

text \<open>
  The loop \<open>while (i < first.length && first.charAt(i) === last.charAt(i)) i++\<close>
  of \<open>analyzeZip\<close>.
\<close>

function commonLen :: "string \<Rightarrow> string \<Rightarrow> nat \<Rightarrow> nat" where
  "commonLen first lst i =
     (if i < length first \<and> charAt first i = charAt lst i
      then commonLen first lst (Suc i) else i)"
  by pat_completeness auto
termination
  by (relation "measure (\<lambda>(first, lst, i). length first - i)") auto

declare commonLen.simps [simp del]

text \<open>
  Step 2 of \<open>analyzeZip\<close>: the paths are sorted (JavaScript's default sort compares
  strings by code units, a shorter prefix first), the common character prefix of the
  first and the last sorted path is cut after its last slash, and the candidate is kept
  only if every path starts with it.
\<close>

definition commonPrefix :: "string list \<Rightarrow> string" where
  "commonPrefix paths =
     (if length paths > 0 then
        (let sortedPaths = sort paths;
             first = sortedPaths ! 0;
             lst = sortedPaths ! (length sortedPaths - 1);
             i = commonLen first lst 0;
             prefix = take i first;
             lastSlash = lastIndexOf prefix (CHR ''/'')
         in if lastSlash \<noteq> - 1 then
              (let potentialPrefix = take (nat (lastSlash + 1)) prefix
               in if list_all (\<lambda>p. startsWith p potentialPrefix) paths
                  then potentialPrefix else [])
            else [])
      else [])"

text \<open>A folder \<open>d\<close> wraps every entry when each path starts with \<open>d/\<close>.\<close>

definition wraps :: "string \<Rightarrow> string list \<Rightarrow> bool" where
  "wraps d paths = list_all (\<lambda>p. startsWith p (d @ ''/'')) paths"


text \<open>Helper for the proofs: the common character prefix of the two ends of the sorted list.\<close>

definition lcpEnds :: "string list \<Rightarrow> string" where
  "lcpEnds paths =
     take (commonLen (sort paths ! 0) (sort paths ! (length (sort paths) - 1)) 0) (sort paths ! 0)"

section \<open>Regular expressions of the analysis\<close>

definition dq :: char where
  "dq = CHR 0x22"

definition sq :: char where
  "sq = CHR 0x27"

text \<open>The character class \<open>["']\<close>.\<close>

definition isQuote :: "char \<Rightarrow> bool" where
  "isQuote c = (c = dq \<or> c = sq)"

text \<open>
  Case folding of the \<open>i\<close> flag. Without the \<open>u\<close> flag a character beyond ASCII never
  folds onto an ASCII letter, so only \<open>A\<close> to \<open>Z\<close> change.
\<close>

definition lower :: "char \<Rightarrow> char" where
  "lower c = (if CHR ''A'' \<le> c \<and> c \<le> CHR ''Z'' then char_of (of_char c + (32::nat)) else c)"

text \<open>
  An alternation of literals anchored at the head of the input: the matched text and the
  rest. The alternatives used here (\<open>src\<close>, \<open>href\<close>) never match at the same position,
  so taking the first one that matches is what the backtracking matcher does.
\<close>

definition matchAlt :: "bool \<Rightarrow> string list \<Rightarrow> string \<Rightarrow> (string \<times> string) option" where
  "matchAlt ignoreCase alts s =
     (case filter (\<lambda>a. if ignoreCase then map lower (take (length a) s) = map lower a
                         else take (length a) s = a) alts of
        [] \<Rightarrow> None
      | a # _ \<Rightarrow> Some (take (length a) s, drop (length a) s))"

text \<open>
  \<open>/(src|href)=["']\/(?!\/)([^"']*)["']/i\<close> anchored at the head of the input: the attribute
  name, the opening quote, the captured path, the closing quote and the rest of the input.
  \<open>[^"']*\<close> is greedy and must be followed by a quote, so it runs to the next quote.
  The warning scan of \<open>analyzeZip\<close> uses the same expression without the groups.
\<close>

definition absMatch :: "string \<Rightarrow> (string \<times> char \<times> string \<times> char \<times> string) option" where
  "absMatch s =
     (case matchAlt True [''src'', ''href''] s of
        None \<Rightarrow> None
      | Some (attr, s1) \<Rightarrow>
          (case s1 of
             e # q1 # sl # s2 \<Rightarrow>
               if e = CHR ''='' \<and> isQuote q1 \<and> sl = CHR ''/'' \<and> \<not> startsWith s2 ''/'' then
                 (case dropWhile (\<lambda>c. \<not> isQuote c) s2 of
                    [] \<Rightarrow> None
                  | q2 # rest \<Rightarrow> Some (attr, q1, takeWhile (\<lambda>c. \<not> isQuote c) s2, q2, rest))
               else None
           | _ \<Rightarrow> None))"

text \<open>\<open>regex.test(content)\<close>: a match at some position.\<close>

fun absTest :: "string \<Rightarrow> bool" where
  "absTest [] = False"
| "absTest (c # cs) = (absMatch (c # cs) \<noteq> None \<or> absTest cs)"

text \<open>
  \<open>/(?:src|href)=["']([^"']+)["']/g\<close> anchored at the head of the input (case-sensitive):
  the captured reference and the rest of the input.
\<close>

definition refMatch :: "string \<Rightarrow> (string \<times> string) option" where
  "refMatch s =
     (case matchAlt False [''src'', ''href''] s of
        None \<Rightarrow> None
      | Some (attr, s1) \<Rightarrow>
          (case s1 of
             e # q1 # s2 \<Rightarrow>
               if e = CHR ''='' \<and> isQuote q1 \<and> takeWhile (\<lambda>c. \<not> isQuote c) s2 \<noteq> [] then
                 (case dropWhile (\<lambda>c. \<not> isQuote c) s2 of
                    [] \<Rightarrow> None
                  | q2 # rest \<Rightarrow> Some (takeWhile (\<lambda>c. \<not> isQuote c) s2, rest))
               else None
           | _ \<Rightarrow> None))"

lemma matchAlt_rest: "matchAlt ic alts s = Some (a, s1) \<Longrightarrow> s = a @ s1"
  by (auto simp: matchAlt_def split: list.splits)

lemma length_dropWhile_le_string: "length (dropWhile P xs) \<le> length xs"
  by (induction xs) auto

lemma refMatch_shorter:
  assumes "refMatch s = Some (r, rest)"
  shows "length rest < length s"
proof -
  from assms obtain attr s1 where m: "matchAlt False [''src'', ''href''] s = Some (attr, s1)"
    by (auto simp: refMatch_def split: option.splits)
  with assms obtain e q1 s2 q2
    where s1: "s1 = e # q1 # s2" and d: "dropWhile (\<lambda>c. \<not> isQuote c) s2 = q2 # rest"
    by (auto simp: refMatch_def split: list.splits if_splits)
  from d have "length rest < length (dropWhile (\<lambda>c. \<not> isQuote c) s2)" by simp
  also have "\<dots> \<le> length s2" by (rule length_dropWhile_le_string)
  also have "\<dots> \<le> length s" using matchAlt_rest [OF m] s1 by simp
  finally show ?thesis .
qed

text \<open>\<open>matchAll\<close>: the captures of all matches, left to right, each search resuming after
  the previous match.\<close>

function matchAllRefs :: "string \<Rightarrow> string list" where
  "matchAllRefs [] = []"
| "matchAllRefs (c # cs) =
     (case refMatch (c # cs) of
        Some (r, rest) \<Rightarrow> r # matchAllRefs rest
      | None \<Rightarrow> matchAllRefs cs)"
  by pat_completeness auto
termination
  by (relation "measure length") (auto dest: refMatch_shorter)


section \<open>Archive analysis: \<open>analyzeZip\<close>\<close>

text \<open>
  An entry of the loaded archive as \<open>analyzeZip\<close> reads it: its name, the directory
  flag, \<open>_data?.uncompressedSize || 0\<close> and the content that \<open>async\<close> yields.
  Sizes are JavaScript numbers holding integers.
\<close>

record zip_entry =
  relativePath :: string
  dir :: bool
  uncompressedSize :: int
  content :: string

text \<open>An element of \<open>ZipAnalysis.files\<close>; \<open>f_entry\<close> is what reading the entry yields.\<close>

record manifest_file =
  f_path :: string
  f_size :: int
  f_entry :: string

record ignored_file =
  i_path :: string
  i_reason :: string

datatype project_type =
  StaticWebsite | NodeProject | Vite | CreateReactApp | NextJs | Angular | Vue | Unknown

record zip_analysis =
  fileCount :: nat
  totalSize :: int
  projectType :: project_type
  files :: "manifest_file list"
  warnings :: "string list"
  ignoredFiles :: "ignored_file list"

text \<open>The local variables that the loop over \<open>rawFiles\<close> updates.\<close>

record scan =
  s_files :: "manifest_file list"
  s_ignoredFiles :: "ignored_file list"
  s_totalSize :: int
  s_hasIndexHtml :: bool
  s_hasPackageJson :: bool
  s_hasDistOrBuild :: bool
  s_indexHtmlContent :: string
  s_warnings :: "string list"

definition ignoreReason :: "string \<Rightarrow> string" where
  "ignoreReason finalPath =
     (if includesStr finalPath ''.DS_Store'' \<or> includesStr finalPath ''Thumbs.db'' then ''System file''
      else if includesStr finalPath ''node_modules/'' then ''Dependency folder (should be built)''
      else if startsWith finalPath ''.git/'' then ''Git metadata''
      else if endsWith finalPath ''.log'' then ''Log file''
      else if endsWith finalPath ''.env'' then ''Environment file (security risk)''
      else if includesStr finalPath ''.vscode/'' \<or> includesStr finalPath ''.idea/'' then ''Editor config''
      else [])"

definition absoluteWarning :: string where
  "absoluteWarning =
     ''Absolute paths detected (e.g., src='' @ [dq] @ ''/script.js'' @ [dq] @ ''). This breaks GitHub Pages.''"

text \<open>Whether the absolute-path scan reads a kept file: HTML, CSS or JS under 1 MB.\<close>

definition scanned :: "string \<Rightarrow> int \<Rightarrow> bool" where
  "scanned finalPath sz =
     ((endsWith finalPath ''.html'' \<or> endsWith finalPath ''.css'' \<or> endsWith finalPath ''.js'')
      \<and> sz < 1024 * 1024)"

text \<open>
  The statements of the \<open>else\<close> branch of the loop body, one definition each, in the
  order of the source: the file is kept and its size added; a root \<open>index.html\<close> is noted
  and, under 500 KB, its content captured; \<open>package.json\<close> and a build folder are noted;
  HTML, CSS and JS under 1 MB is tested for a root-absolute reference.
\<close>

definition keepFile :: "string \<Rightarrow> int \<Rightarrow> string \<Rightarrow> scan \<Rightarrow> scan" where
  "keepFile finalPath sz c st =
     st\<lparr>s_files := s_files st @ [\<lparr>f_path = finalPath, f_size = sz, f_entry = c\<rparr>],
        s_totalSize := s_totalSize st + sz\<rparr>"

definition noteIndexHtml :: "string \<Rightarrow> int \<Rightarrow> string \<Rightarrow> scan \<Rightarrow> scan" where
  "noteIndexHtml finalPath sz c st =
     (if finalPath = ''index.html''
      then st\<lparr>s_hasIndexHtml := True,
              s_indexHtmlContent := (if sz < 500 * 1024 then c else s_indexHtmlContent st)\<rparr>
      else st)"

definition notePackageJson :: "string \<Rightarrow> scan \<Rightarrow> scan" where
  "notePackageJson finalPath st =
     (if finalPath = ''package.json'' then st\<lparr>s_hasPackageJson := True\<rparr> else st)"

definition noteDistOrBuild :: "string \<Rightarrow> scan \<Rightarrow> scan" where
  "noteDistOrBuild finalPath st =
     (if startsWith finalPath ''dist/'' \<or> startsWith finalPath ''build/'' \<or> startsWith finalPath ''out/''
      then st\<lparr>s_hasDistOrBuild := True\<rparr> else st)"

definition noteAbsolutePaths :: "string \<Rightarrow> int \<Rightarrow> string \<Rightarrow> scan \<Rightarrow> scan" where
  "noteAbsolutePaths finalPath sz c st =
     (if scanned finalPath sz \<and> absTest c \<and> absoluteWarning \<notin> set (s_warnings st)
      then st\<lparr>s_warnings := s_warnings st @ [absoluteWarning]\<rparr>
      else st)"

text \<open>\<open>finalPath\<close>: the path with the common root removed.\<close>

definition finalPathOf :: "string \<Rightarrow> zip_entry \<Rightarrow> string" where
  "finalPathOf cp raw = (if cp \<noteq> [] then drop (length cp) (relativePath raw) else relativePath raw)"

text \<open>One iteration of the loop \<open>for (const { path, entry } of rawFiles)\<close>.\<close>

definition processFile :: "string \<Rightarrow> scan \<Rightarrow> zip_entry \<Rightarrow> scan" where
  "processFile cp st raw =
     (let finalPath = finalPathOf cp raw;
          sz = uncompressedSize raw;
          reason = ignoreReason finalPath
      in if reason \<noteq> [] then
           st\<lparr>s_ignoredFiles := s_ignoredFiles st @ [\<lparr>i_path = finalPath, i_reason = reason\<rparr>]\<rparr>
         else
           noteAbsolutePaths finalPath sz (content raw)
             (noteDistOrBuild finalPath
               (notePackageJson finalPath
                 (noteIndexHtml finalPath sz (content raw)
                   (keepFile finalPath sz (content raw) st)))))"

definition initialScan :: scan where
  "initialScan = \<lparr>s_files = [], s_ignoredFiles = [], s_totalSize = 0, s_hasIndexHtml = False,
     s_hasPackageJson = False, s_hasDistOrBuild = False, s_indexHtmlContent = [], s_warnings = []\<rparr>"

text \<open>Step 4 of \<open>analyzeZip\<close>: the chain of \<open>if\<close>/\<open>else if\<close> that sets \<open>projectType\<close>.\<close>

definition classify :: "scan \<Rightarrow> project_type" where
  "classify st =
     (if list_ex (\<lambda>f. includesStr (f_path f) ''vite.config.js'' \<or> includesStr (f_path f) ''vite.config.ts'')
           (s_files st) then Vite
      else if list_ex (\<lambda>f. includesStr (f_path f) ''next.config.js'' \<or> includesStr (f_path f) ''next.config.mjs''
                  \<or> includesStr (f_path f) ''next.config.ts'') (s_files st) then NextJs
      else if list_ex (\<lambda>f. f_path f = ''angular.json'') (s_files st) then Angular
      else if list_ex (\<lambda>f. includesStr (f_path f) ''vue.config.js'') (s_files st) then Vue
      else if s_hasPackageJson st \<and> list_ex (\<lambda>f. includesStr (f_path f) ''react-scripts'') (s_files st)
        then CreateReactApp
      else if s_hasIndexHtml st then StaticWebsite
      else if s_hasPackageJson st then NodeProject
      else Unknown)"

text \<open>The body of the loop over the \<open>src=\<close>/\<open>href=\<close> references of \<open>index.html\<close>.\<close>

definition missingWarning :: "string \<Rightarrow> string" where
  "missingWarning ref = ''Missing asset referenced in index.html: '' @ [sq] @ ref @ [sq]"

definition skippedRef :: "string \<Rightarrow> bool" where
  "skippedRef ref = (startsWith ref ''http'' \<or> startsWith ref ''//'' \<or> startsWith ref ''#''
                     \<or> startsWith ref ''/'')"

definition normalizeRef :: "string \<Rightarrow> string" where
  "normalizeRef ref0 =
     (let ref = takeWhile (\<lambda>c. c \<noteq> CHR ''#'') (takeWhile (\<lambda>c. c \<noteq> CHR ''?'') ref0)
      in if startsWith ref ''./'' then drop 2 ref else ref)"

definition checkRef :: "manifest_file list \<Rightarrow> string list \<Rightarrow> string \<Rightarrow> string list" where
  "checkRef fs ws ref0 =
     (if skippedRef ref0 then ws
      else (let ref = normalizeRef ref0;
                assetExists = list_ex (\<lambda>f. f_path f = ref) fs
            in if \<not> assetExists \<and> missingWarning ref \<notin> set ws
               then ws @ [missingWarning ref] else ws))"

definition sourceWithBuildWarning :: string where
  "sourceWithBuildWarning = ''Found 'package.json' and 'dist/build' folder. You likely uploaded the source code. Please upload ONLY the contents of the 'dist' or 'build' folder.''"

definition sourceWarning :: string where
  "sourceWarning = ''Detected 'package.json' but no 'index.html' at root. Are you uploading source code? You must build your project first (npm run build) and upload the output folder.''"

definition nestedIndexWarning :: "string \<Rightarrow> string" where
  "nestedIndexWarning p = [sq] @ ''index.html' found at '' @ [sq] @ p @ [sq] @ ''. It must be at the root level. Please unzip, go into the folder, and zip the CONTENTS.''"

definition noIndexWarning :: string where
  "noIndexWarning = ''No 'index.html' found. Your site will not load.''"

text \<open>The warnings after the loop: the asset check and the two heuristics.\<close>

definition finalWarnings :: "scan \<Rightarrow> project_type \<Rightarrow> string list" where
  "finalWarnings st pt =
     (let w1 = (if s_hasIndexHtml st \<and> s_indexHtmlContent st \<noteq> []
                then foldl (checkRef (s_files st)) (s_warnings st) (matchAllRefs (s_indexHtmlContent st))
                else s_warnings st);
          w2 = (if s_hasPackageJson st \<and> \<not> s_hasIndexHtml st \<and> pt = Unknown
                then (if s_hasDistOrBuild st then w1 @ [sourceWithBuildWarning] else w1 @ [sourceWarning])
                else w1)
      in if \<not> s_hasIndexHtml st \<and> \<not> s_hasPackageJson st \<and> pt = Unknown
         then (case find (\<lambda>f. endsWith (f_path f) ''/index.html'') (s_files st) of
                 Some nestedIndex \<Rightarrow> w2 @ [nestedIndexWarning (f_path nestedIndex)]
               | None \<Rightarrow> w2 @ [noIndexWarning])
         else w2)"

text \<open>Step 1 of \<open>analyzeZip\<close>: directories and resource-fork entries are left out.\<close>

definition rawFilesOf :: "zip_entry list \<Rightarrow> zip_entry list" where
  "rawFilesOf entries = filter (\<lambda>e. \<not> dir e \<and> \<not> includesStr (relativePath e) ''__MACOSX'') entries"

definition scanZip :: "zip_entry list \<Rightarrow> scan" where
  "scanZip entries =
     (let rawFiles = rawFilesOf entries
      in foldl (processFile (commonPrefix (map relativePath rawFiles))) initialScan rawFiles)"

definition analyzeZip :: "zip_entry list \<Rightarrow> zip_analysis" where
  "analyzeZip entries =
     (let st = scanZip entries;
          pt = classify st
      in \<lparr>fileCount = length (s_files st), totalSize = s_totalSize st, projectType = pt,
          files = s_files st, warnings = finalWarnings st pt, ignoredFiles = s_ignoredFiles st\<rparr>)"

section \<open>The apply-fix transform: \<open>fixAbsolutePaths\<close>\<close>

text \<open>
  The callback of \<open>content.replace(regex, ...)\<close>: the quote is the double quote when the
  matched text holds one, and the reference is rewritten to start with \<open>./\<close>.
\<close>

definition replacement :: "string \<Rightarrow> char \<Rightarrow> string \<Rightarrow> char \<Rightarrow> string" where
  "replacement attr q1 path q2 =
     (let matched = attr @ ''='' @ [q1] @ ''/'' @ path @ [q2];
          quote = (if dq \<in> set matched then dq else sq)
      in attr @ ''='' @ [quote] @ ''./'' @ path @ [quote])"

lemma absMatch_shorter:
  assumes "absMatch s = Some (attr, q1, path, q2, rest)"
  shows "length rest < length s"
proof -
  from assms obtain a s1 where m: "matchAlt True [''src'', ''href''] s = Some (a, s1)"
    by (auto simp: absMatch_def split: option.splits)
  with assms obtain e sl s2
    where s1: "s1 = e # q1 # sl # s2" and d: "dropWhile (\<lambda>c. \<not> isQuote c) s2 = q2 # rest"
    by (auto simp: absMatch_def split: list.splits if_splits)
  from d have "length rest < length (dropWhile (\<lambda>c. \<not> isQuote c) s2)" by simp
  also have "\<dots> \<le> length s2" by (rule length_dropWhile_le_string)
  also have "\<dots> \<le> length s" using matchAlt_rest [OF m] s1 by simp
  finally show ?thesis .
qed

text \<open>
  \<open>content.replace(regex, callback)\<close> with the \<open>g\<close> flag: every match, left to right, is
  replaced and the search resumes after it (\<open>replace\<close> resets \<open>lastIndex\<close>, so the earlier
  \<open>regex.test\<close> does not move the start).
\<close>

function fixContent :: "string \<Rightarrow> string" where
  "fixContent [] = []"
| "fixContent (c # cs) =
     (case absMatch (c # cs) of
        Some (attr, q1, path, q2, rest) \<Rightarrow> replacement attr q1 path q2 @ fixContent rest
      | None \<Rightarrow> c # fixContent cs)"
  by pat_completeness auto
termination
  by (relation "measure length") (auto dest: absMatch_shorter)

text \<open>\<open>/\.(html|css|js)$/i\<close> on the path.\<close>

definition fixable :: "string \<Rightarrow> bool" where
  "fixable p = (endsWith (map lower p) ''.html'' \<or> endsWith (map lower p) ''.css''
                \<or> endsWith (map lower p) ''.js'')"

text \<open>
  The function mapped over \<open>analysis.files\<close>. \<open>modified\<close> is set by the callback, which
  runs exactly when the expression matches somewhere; the new size is \<open>content.length\<close>.
\<close>

definition fixFile :: "manifest_file \<Rightarrow> manifest_file" where
  "fixFile file =
     (if \<not> fixable (f_path file) then file
      else if f_size file > 1024 * 1024 then file
      else if absTest (f_entry file)
        then file\<lparr>f_entry := fixContent (f_entry file),
                  f_size := int (length (fixContent (f_entry file)))\<rparr>
        else file)"

definition fixAbsolutePaths :: "zip_analysis \<Rightarrow> zip_analysis" where
  "fixAbsolutePaths analysis =
     analysis\<lparr>files := map fixFile (files analysis),
              warnings := filter (\<lambda>w. \<not> includesStr w ''Absolute paths detected'') (warnings analysis)\<rparr>"

text \<open>Whether \<open>fixFile\<close> rewrites a file: a rewritable path, at most 1 MB, and a match.\<close>

definition rewritten :: "manifest_file \<Rightarrow> bool" where
  "rewritten f = (fixable (f_path f) \<and> f_size f \<le> 1024 * 1024 \<and> absTest (f_entry f))"

text \<open>
  An attribute name that the expression of \<open>fixAbsolutePaths\<close> accepts, in any letter case,
  and a path that ends with such a name and \<open>=\<close>.
\<close>

definition attrName :: "string \<Rightarrow> bool" where
  "attrName a = (map lower a = ''src'' \<or> map lower a = ''href'')"

definition endsAttr :: "string \<Rightarrow> bool" where
  "endsAttr p = (endsWith (map lower p) ''src='' \<or> endsWith (map lower p) ''href='')"

text \<open>
  The paths captured by the matches that \<open>content.replace\<close> visits, in order, and those of
  a file that \<open>fixFile\<close> rewrites.
\<close>

function rewrittenPaths :: "string \<Rightarrow> string list" where
  "rewrittenPaths [] = []"
| "rewrittenPaths (c # cs) =
     (case absMatch (c # cs) of
        Some (attr, q1, path, q2, rest) \<Rightarrow> path # rewrittenPaths rest
      | None \<Rightarrow> rewrittenPaths cs)"
  by pat_completeness auto
termination
  by (relation "measure length") (auto dest: absMatch_shorter)

definition rewrittenIn :: "manifest_file \<Rightarrow> string list" where
  "rewrittenIn f = (if rewritten f then rewrittenPaths (f_entry f) else [])"

text \<open>Helpers for the proofs: the file a kept entry becomes, and the loop invariant that
  ties the flags and the running total to the kept files.\<close>

definition keptFile :: "string \<Rightarrow> zip_entry \<Rightarrow> manifest_file" where
  "keptFile cp raw = \<lparr>f_path = finalPathOf cp raw, f_size = uncompressedSize raw, f_entry = content raw\<rparr>"

definition flagsInv :: "scan \<Rightarrow> bool" where
  "flagsInv st =
     (s_hasIndexHtml st = list_ex (\<lambda>f. f_path f = ''index.html'') (s_files st) \<and>
      s_hasPackageJson st = list_ex (\<lambda>f. f_path f = ''package.json'') (s_files st) \<and>
      s_totalSize st = sum_list (map f_size (s_files st)))"

section \<open>Deployment: events, requests and failures\<close>

text \<open>\<open>DeployStatus\<close>, the argument of the status callback.\<close>

datatype status_type = TInfo | TSuccess | TError

record deploy_status =
  step :: string
  details :: "string option"
  kind :: status_type
  progress :: "int option"

text \<open>A thrown error: the HTTP status when the client library attached one, and the message.\<close>

record failure =
  err_status :: "int option"
  err_message :: string

text \<open>An element of \<open>treeItems\<close>.\<close>

record tree_item =
  t_path :: string
  t_mode :: string
  t_sha :: string

text \<open>
  The requests that the two deploy functions issue. \<open>CreateBlob k a\<close> is attempt \<open>a\<close>
  (counted from 0) to upload the file at index \<open>k\<close> of \<open>filesToUpload\<close>; \<open>CreateTree\<close>
  carries \<open>base_tree\<close> when it is set and the tree items, \<open>CreateCommit\<close> the tree and the
  parents; \<open>UploadFile k\<close> uploads the hash at index \<open>k\<close> of the required hashes.
\<close>

datatype request =
    GetAuthenticated | CreateForAuthenticatedUser | ReposGet | GetRef | GetCommit
  | CreateBlob nat nat | CreateTree "string option" "tree_item list" | CreateCommit string "string list"
  | UpdateRef | CreatePagesSite | GetPages
  | CreateVersion | PopulateFiles | UploadFile nat | FinalizeVersion | CreateRelease

text \<open>
  What a run does, in order of time, until the deploy function settles: a status handed to
  the callback, a request issued, a \<open>setTimeout\<close> delay started (in milliseconds).
\<close>

datatype action = Emit deploy_status | Call request | Delay nat

text \<open>
  An asynchronous computation that may throw: the actions it performed, and the error
  thrown or the value returned.
\<close>

type_synonym 'a run = "action list \<times> (failure + 'a)"

definition ret :: "'a \<Rightarrow> 'a run" where
  "ret x = ([], Inr x)"

definition throw :: "failure \<Rightarrow> 'a run" where
  "throw e = ([], Inl e)"

definition bind :: "'a run \<Rightarrow> ('a \<Rightarrow> 'b run) \<Rightarrow> 'b run" where
  "bind m f =
     (case snd m of
        Inl e \<Rightarrow> (fst m, Inl e)
      | Inr x \<Rightarrow> (fst m @ fst (f x), snd (f x)))"

text \<open>\<open>try { m } catch (e) { h e }\<close>.\<close>

definition catch :: "'a run \<Rightarrow> (failure \<Rightarrow> 'a run) \<Rightarrow> 'a run" where
  "catch m h =
     (case snd m of
        Inl e \<Rightarrow> (fst m @ fst (h e), snd (h e))
      | Inr x \<Rightarrow> m)"

definition emit :: "deploy_status \<Rightarrow> unit run" where
  "emit st = ([Emit st], Inr ())"

text \<open>A request and the answer the provider gives to it.\<close>

definition call :: "request \<Rightarrow> failure + 'a \<Rightarrow> 'a run" where
  "call r answer = ([Call r], answer)"

definition delay :: "nat \<Rightarrow> unit run" where
  "delay ms = ([Delay ms], Inr ())"

definition info :: "string \<Rightarrow> deploy_status" where
  "info s = \<lparr>step = s, details = None, kind = TInfo, progress = None\<rparr>"

definition success :: "string \<Rightarrow> deploy_status" where
  "success s = \<lparr>step = s, details = None, kind = TSuccess, progress = None\<rparr>"

text \<open>The status of the outer \<open>catch\<close> block of both deploy functions.\<close>

definition failedStatus :: "failure \<Rightarrow> deploy_status" where
  "failedStatus e =
     \<lparr>step = ''Deployment failed'',
      details = Some (if err_message e \<noteq> [] then err_message e else ''Unknown error occurred''),
      kind = TError, progress = None\<rparr>"

text \<open>
  \<open>try { body } catch (error) { onStatus({..., type: "error"}); throw error; }\<close>, the
  frame of both deploy functions.
\<close>

definition reportFailure :: "'a run \<Rightarrow> 'a run" where
  "reportFailure body = catch body (\<lambda>error. bind (emit (failedStatus error)) (\<lambda>_. throw error))"

text \<open>
  \<open>await Promise.all(batch.map(async ...))\<close>. Every async function of the batch is
  called in turn and runs up to its first \<open>await\<close>, which is the request it issues first.
  From then on the computations are pending and resume one at a time, in an order that the
  network decides and the code does not: \<open>arrival\<close> lists which of the pending
  computations (counted among those still pending) resumes next, the first one once the
  list is used up. A computation that resumes performs its next action; one with no action
  left settles. The first one that settles with an error rejects \<open>Promise.all\<close> at
  once, and the computations still pending go on in the background, outside the run.
  When all have settled with a value, the values are listed in the order of settling,
  which is the order of the side effects of the callbacks.
\<close>

definition resumed :: "nat list \<Rightarrow> nat \<Rightarrow> nat" where
  "resumed arrival n = (case arrival of [] \<Rightarrow> 0 | k # _ \<Rightarrow> k mod n)"

definition pendingWork :: "'a run list \<Rightarrow> nat" where
  "pendingWork ps = sum_list (map (\<lambda>p. Suc (length (fst p))) ps)"

lemma pendingWork_append: "pendingWork (ps @ qs) = pendingWork ps + pendingWork qs"
  by (simp add: pendingWork_def)

lemma pendingWork_Cons: "pendingWork (p # ps) = Suc (length (fst p)) + pendingWork ps"
  by (simp add: pendingWork_def)

lemma pendingWork_nth:
  assumes "k < length ps"
  shows "pendingWork ps
     = pendingWork (take k ps) + Suc (length (fst (ps ! k))) + pendingWork (drop (Suc k) ps)"
proof -
  from id_take_nth_drop [OF assms]
  have "pendingWork ps = pendingWork (take k ps @ ps ! k # drop (Suc k) ps)" by (rule arg_cong)
  then show ?thesis by (simp only: pendingWork_append pendingWork_Cons add.assoc)
qed

lemma pendingWork_resume:
  assumes "k < length ps" "(a # as, r) = ps ! k"
  shows "pendingWork (ps[k := (as, r)]) < pendingWork ps"
proof -
  from assms(2) have f: "length (fst (ps ! k)) = Suc (length as)" by (metis fst_conv length_Cons)
  have "pendingWork (ps[k := (as, r)])
      = pendingWork (take k ps) + Suc (length as) + pendingWork (drop (Suc k) ps)"
    unfolding upd_conv_take_nth_drop [OF assms(1)]
    by (simp only: pendingWork_append pendingWork_Cons fst_conv add.assoc)
  with pendingWork_nth [OF assms(1)] f show ?thesis by simp
qed

lemma pendingWork_settle:
  assumes "k < length ps"
  shows "pendingWork (take k ps @ drop (Suc k) ps) < pendingWork ps"
  using pendingWork_nth [OF assms] by (simp only: pendingWork_append)

lemma resumed_less: "ps \<noteq> [] \<Longrightarrow> resumed arrival (length ps) < length ps"
  by (cases arrival) (simp_all add: resumed_def)

function settle :: "nat list \<Rightarrow> 'a run list \<Rightarrow> 'a list run" where
  "settle arrival pending =
     (if pending = [] then ([], Inr [])
      else
        let k = resumed arrival (length pending) in
        case pending ! k of
          (a # as, r) \<Rightarrow>
            (a # fst (settle (tl arrival) (pending[k := (as, r)])),
             snd (settle (tl arrival) (pending[k := (as, r)])))
        | ([], Inl e) \<Rightarrow> ([], Inl e)
        | ([], Inr v) \<Rightarrow>
            (fst (settle (tl arrival) (take k pending @ drop (Suc k) pending)),
             case snd (settle (tl arrival) (take k pending @ drop (Suc k) pending)) of
               Inl e \<Rightarrow> Inl e
             | Inr vs \<Rightarrow> Inr (v # vs)))"
  by pat_completeness auto
termination
proof (relation "measure (\<lambda>(arrival, pending). pendingWork pending)")
qed (auto simp: pendingWork_resume pendingWork_settle resumed_less)

declare settle.simps [simp del]

definition promiseAll :: "nat list \<Rightarrow> 'a run list \<Rightarrow> 'a list run" where
  "promiseAll arrival ms =
     (concat (map (\<lambda>m. take 1 (fst m)) ms) @ fst (settle arrival (map (\<lambda>m. (drop 1 (fst m), snd m)) ms)),
      snd (settle arrival (map (\<lambda>m. (drop 1 (fst m), snd m)) ms)))"

text \<open>
  \<open>Math.round((n / total) * 100)\<close> on JavaScript numbers. The quotient and the product are
  rounded to the nearest double, ties to even; \<open>Math.round\<close> is exact and rounds a half
  up. A double is written \<open>(m, e)\<close> for \<open>m * 2^e\<close> with 53 significant bits in \<open>m\<close>; the
  counts are positive and far inside the range of the normal doubles.
\<close>

function bits :: "int \<Rightarrow> int" where
  "bits n = (if n \<le> 0 then 0 else 1 + bits (n div 2))"
  by pat_completeness auto
termination
  by (relation "measure nat") auto

declare bits.simps [simp del]

text \<open>The fraction \<open>p * 2^e / q\<close>.\<close>

definition scaled :: "int \<Rightarrow> int \<Rightarrow> int \<Rightarrow> int \<times> int" where
  "scaled p q e = (if e \<ge> 0 then (p * 2 ^ nat e, q) else (p, q * 2 ^ nat (- e)))"

definition nearestEven :: "int \<times> int \<Rightarrow> int" where
  "nearestEven pq =
     (let f = fst pq div snd pq; r = fst pq mod snd pq
      in if 2 * r < snd pq then f else if 2 * r > snd pq then f + 1 else if even f then f else f + 1)"

text \<open>The exponent \<open>e\<close> with \<open>2^e \<le> p / q < 2^(e + 1)\<close>.\<close>

definition binade :: "int \<Rightarrow> int \<Rightarrow> int" where
  "binade p q =
     (let e = bits p - bits q
      in if snd (scaled p q (- e)) \<le> fst (scaled p q (- e)) then e else e - 1)"

definition double :: "int \<Rightarrow> int \<Rightarrow> int \<times> int" where
  "double p q = (nearestEven (scaled p q (52 - binade p q)), binade p q - 52)"

definition percent :: "nat \<Rightarrow> nat \<Rightarrow> int" where
  "percent n tot =
     (let (m, e) = double (int n) (int tot);
          (p, q) = scaled (m * 100) 1 e;
          (m', e') = double p q;
          (p', q') = scaled m' 1 e'
      in (2 * p' + q') div (2 * q'))"

text \<open>A number in a template string.\<close>

function showNat :: "nat \<Rightarrow> string" where
  "showNat n = (if n < 10 then [char_of (48 + n)] else showNat (n div 10) @ [char_of (48 + n mod 10)])"
  by pat_completeness auto
termination
  by (relation "measure id") auto

declare showNat.simps [simp del]

definition uploaded :: "nat \<Rightarrow> nat \<Rightarrow> deploy_status" where
  "uploaded n tot =
     \<lparr>step = ''Uploaded '' @ showNat n @ ''/'' @ showNat tot @ '' files...'',
      details = None, kind = TInfo, progress = Some (percent n tot)\<rparr>"

section \<open>The Git backend: \<open>deployZipToGitHub\<close>\<close>

record patch =
  p_path :: string
  p_content :: string
  p_description :: string

text \<open>An element of \<open>filesToUpload\<close>. Contents are byte strings; on the ASCII texts
  modelled here \<open>TextEncoder().encode\<close> leaves the characters as they are.\<close>

record upload_file =
  u_path :: string
  u_content :: string
  u_mode :: string

text \<open>
  The answers of the provider to the requests of one run. \<open>createBlob k a\<close> answers
  attempt number \<open>a\<close> (counted from 0) to upload the file at index \<open>k\<close> of
  \<open>filesToUpload\<close>. An answer is the thrown error or the field of the response that the
  code reads (login, default branch, SHA, \<open>html_url\<close> with the empty string for a missing
  one). \<open>blobArrival i\<close> is the order in which the uploads of the batch that starts at
  index \<open>i\<close> resume.
\<close>

record github =
  getAuthenticated :: "failure + string"
  createForAuthenticatedUser :: "failure + string"
  reposGet :: "failure + string"
  getRef :: "failure + string"
  getCommit :: "failure + string"
  createBlob :: "nat \<Rightarrow> nat \<Rightarrow> failure + string"
  createTree :: "failure + string"
  createCommit :: "failure + string"
  updateRef :: "failure + unit"
  createPagesSite :: "failure + string"
  getPages :: "failure + string"
  blobArrival :: "nat \<Rightarrow> nat list"

text \<open>Phase 2: create the repository, or read it when the creation answers 422.\<close>

definition createOrGetRepository :: "github \<Rightarrow> string \<Rightarrow> string run" where
  "createOrGetRepository gh repoName =
     catch
       (bind (call CreateForAuthenticatedUser (createForAuthenticatedUser gh)) (\<lambda>defaultBranch.
        bind (emit (success ''Repository created successfully.'')) (\<lambda>_.
        ret defaultBranch)))
       (\<lambda>error.
          if err_status error = Some 422 then
            bind (emit (info (''Repository '' @ [dq] @ repoName @ [dq] @ '' already exists. Fetching details...''))) (\<lambda>_.
            call ReposGet (reposGet gh))
          else throw error)"

text \<open>Phase 3: the files of the analysis, the patches laid over them, the CNAME file.\<close>

definition materialize :: "manifest_file \<Rightarrow> upload_file" where
  "materialize file = \<lparr>u_path = f_path file, u_content = f_entry file, u_mode = ''100644''\<rparr>"

fun findIndex :: "('a \<Rightarrow> bool) \<Rightarrow> 'a list \<Rightarrow> nat option" where
  "findIndex P [] = None"
| "findIndex P (x # xs) = (if P x then Some 0 else map_option Suc (findIndex P xs))"

text \<open>The body of \<open>for (const patch of patches)\<close>.\<close>

definition applyPatch :: "upload_file list \<Rightarrow> patch \<Rightarrow> upload_file list" where
  "applyPatch filesToUpload p =
     (case findIndex (\<lambda>f. u_path f = p_path p) filesToUpload of
        Some existingIndex \<Rightarrow>
          filesToUpload[existingIndex := (filesToUpload ! existingIndex)\<lparr>u_content := p_content p\<rparr>]
      | None \<Rightarrow>
          filesToUpload @ [\<lparr>u_path = p_path p, u_content = p_content p, u_mode = ''100644''\<rparr>])"

text \<open>\<open>if (customDomain)\<close>: an absent and an empty custom domain are both falsy.\<close>

definition given :: "string option \<Rightarrow> bool" where
  "given customDomain = (case customDomain of None \<Rightarrow> False | Some d \<Rightarrow> d \<noteq> [])"

definition cnameFile :: "string option \<Rightarrow> upload_file" where
  "cnameFile customDomain =
     \<lparr>u_path = ''CNAME'', u_content = (case customDomain of None \<Rightarrow> [] | Some d \<Rightarrow> d), u_mode = ''100644''\<rparr>"

definition prepareFiles :: "manifest_file list \<Rightarrow> patch list \<Rightarrow> string option \<Rightarrow> upload_file list" where
  "prepareFiles fs patches customDomain =
     (let materialized = map materialize fs;
          patched = (if patches \<noteq> [] then foldl applyPatch materialized patches else materialized)
      in if given customDomain then patched @ [cnameFile customDomain] else patched)"

definition prepare :: "zip_analysis \<Rightarrow> patch list \<Rightarrow> string option \<Rightarrow> upload_file list run" where
  "prepare analysis patches customDomain =
     bind (emit (info ''Preparing files from analysis...'')) (\<lambda>_.
     bind (if patches \<noteq> [] then emit (info (''Applying '' @ showNat (length patches) @ '' auto-fixes...''))
           else ret ()) (\<lambda>_.
     bind (if given customDomain
           then emit (info (''Adding CNAME for '' @ (case customDomain of None \<Rightarrow> [] | Some d \<Rightarrow> d) @ ''...''))
           else ret ()) (\<lambda>_.
     bind (emit (info (''Prepared '' @ showNat (length (prepareFiles (files analysis) patches customDomain))
                       @ '' files for upload.''))) (\<lambda>_.
     ret (prepareFiles (files analysis) patches customDomain)))))"

text \<open>
  Helpers for the statement about the prepared files: the upload list after the loop over
  the patches, and the last patch of the list that names a path.
\<close>

definition overlaid :: "manifest_file list \<Rightarrow> patch list \<Rightarrow> upload_file list" where
  "overlaid fs patches = foldl applyPatch (map materialize fs) patches"

definition lastPatch :: "string \<Rightarrow> patch list \<Rightarrow> patch option" where
  "lastPatch p patches = find (\<lambda>pt. p_path pt = p) (rev patches)"

text \<open>
  Phase 4: the latest commit and its tree. Whatever fails inside the \<open>try\<close> is swallowed;
  \<open>latestCommitSha\<close> keeps the value assigned before the commit was read.
\<close>

definition readHead :: "github \<Rightarrow> (string \<times> string) run" where
  "readHead gh =
     catch
       (bind (call GetRef (getRef gh)) (\<lambda>latestCommitSha.
        catch
          (bind (call GetCommit (getCommit gh)) (\<lambda>baseTreeSha. ret (latestCommitSha, baseTreeSha)))
          (\<lambda>e. bind (emit (info ''No existing commit found. Starting fresh...'')) (\<lambda>_.
                ret (latestCommitSha, [])))))
       (\<lambda>e. bind (emit (info ''No existing commit found. Starting fresh...'')) (\<lambda>_. ret ([], [])))"

text \<open>
  Phase 5, one file: \<open>let retries = 3; while (retries > 0) { try { ...; break } catch (err)
  { retries--; if (retries === 0) throw err; await <1s> } }\<close>. The argument counts the
  retries left; the blob SHA is returned for the tree item.
\<close>

fun uploadWithRetry :: "github \<Rightarrow> nat \<Rightarrow> nat \<Rightarrow> string option run" where
  "uploadWithRetry gh k 0 = ret None"
| "uploadWithRetry gh k (Suc retries) =
     catch
       (bind (call (CreateBlob k (3 - Suc retries)) (createBlob gh k (3 - Suc retries))) (\<lambda>sha.
        ret (Some sha)))
       (\<lambda>err. if retries = 0 then throw err
              else bind (delay 1000) (\<lambda>_. uploadWithRetry gh k retries))"

definition BATCH_SIZE :: nat where
  "BATCH_SIZE = 5"

definition treeItemOf :: "upload_file list \<Rightarrow> nat \<Rightarrow> string option \<Rightarrow> tree_item list" where
  "treeItemOf filesToUpload k sha =
     (case sha of
        None \<Rightarrow> []
      | Some h \<Rightarrow> [\<lparr>t_path = u_path (filesToUpload ! k), t_mode = u_mode (filesToUpload ! k), t_sha = h\<rparr>])"

text \<open>
  The async function mapped over a batch: the upload with its retries, then
  \<open>treeItems.push\<close>; its value here is what it pushes.
\<close>

definition uploadOne :: "github \<Rightarrow> upload_file list \<Rightarrow> nat \<Rightarrow> tree_item list run" where
  "uploadOne gh filesToUpload k =
     bind (uploadWithRetry gh k 3) (\<lambda>sha. ret (treeItemOf filesToUpload k sha))"

text \<open>
  One batch: \<open>filesToUpload.slice(i, i + BATCH_SIZE)\<close> under \<open>Promise.all\<close>. The items
  reach \<open>treeItems\<close> in the order in which the uploads settle.
\<close>

definition uploadBatch :: "github \<Rightarrow> upload_file list \<Rightarrow> nat \<Rightarrow> tree_item list run" where
  "uploadBatch gh filesToUpload i =
     bind (promiseAll (blobArrival gh i)
             (map (uploadOne gh filesToUpload) [i ..< min (i + BATCH_SIZE) (length filesToUpload)])) (\<lambda>pushed.
     ret (concat pushed))"

function uploadBlobs :: "github \<Rightarrow> upload_file list \<Rightarrow> nat \<Rightarrow> tree_item list \<Rightarrow> tree_item list run" where
  "uploadBlobs gh filesToUpload i treeItems =
     (if i < length filesToUpload then
        bind (uploadBatch gh filesToUpload i) (\<lambda>items.
        bind (emit (uploaded (min (i + BATCH_SIZE) (length filesToUpload)) (length filesToUpload))) (\<lambda>_.
        uploadBlobs gh filesToUpload (i + BATCH_SIZE) (treeItems @ items)))
      else ret treeItems)"
  by pat_completeness auto
termination
  by (relation "measure (\<lambda>(gh, filesToUpload, i, treeItems). length filesToUpload - i)")
     (auto simp: BATCH_SIZE_def)

declare uploadBlobs.simps [simp del]

text \<open>\<open>a || b\<close> on strings.\<close>

definition orElse :: "string \<Rightarrow> string \<Rightarrow> string" where
  "orElse a b = (if a \<noteq> [] then a else b)"

text \<open>Phase 9: enable hosting; no failure of it leaves the \<open>try\<close>.\<close>

definition enablePages :: "github \<Rightarrow> string \<Rightarrow> string \<Rightarrow> string run" where
  "enablePages gh owner repoName =
     (let pagesUrl = ''https://'' @ owner @ ''.github.io/'' @ repoName @ ''/''
      in bind (emit (info ''Enabling GitHub Pages...'')) (\<lambda>_.
         bind (delay 2000) (\<lambda>_.
         catch
           (bind (call CreatePagesSite (createPagesSite gh)) (\<lambda>html_url.
            bind (emit (success ''GitHub Pages enabled successfully!'')) (\<lambda>_.
            ret (orElse html_url pagesUrl))))
           (\<lambda>err.
              if err_status err = Some 409 then
                bind (emit (info ''GitHub Pages already enabled.'')) (\<lambda>_.
                catch (bind (call GetPages (getPages gh)) (\<lambda>html_url. ret (orElse html_url pagesUrl)))
                      (\<lambda>e. ret pagesUrl))
              else
                bind (emit (info ''Could not auto-enable Pages (Check Settings manually).'')) (\<lambda>_.
                ret pagesUrl)))))"

text \<open>The \<open>try\<close> block of \<open>deployZipToGitHub\<close>.\<close>

definition gitHubBody ::
  "github \<Rightarrow> string \<Rightarrow> zip_analysis \<Rightarrow> string option \<Rightarrow> patch list \<Rightarrow> string run" where
  "gitHubBody gh repoName analysis customDomain patches =
     bind (emit (info ''Authenticating...'')) (\<lambda>_.
     bind (call GetAuthenticated (getAuthenticated gh)) (\<lambda>owner.
     bind (emit (success (''Authenticated as '' @ owner))) (\<lambda>_.
     bind (emit (info (''Setting up repository '' @ [dq] @ repoName @ [dq] @ ''...''))) (\<lambda>_.
     bind (createOrGetRepository gh repoName) (\<lambda>defaultBranch.
     bind (prepare analysis patches customDomain) (\<lambda>filesToUpload.
     bind (readHead gh) (\<lambda>(latestCommitSha, baseTreeSha).
     bind (emit (info ''Uploading files...'')) (\<lambda>_.
     bind (uploadBlobs gh filesToUpload 0 []) (\<lambda>treeItems.
     bind (emit (info ''Creating file tree...'')) (\<lambda>_.
     bind (call (CreateTree (if baseTreeSha \<noteq> [] then Some baseTreeSha else None) treeItems)
             (createTree gh)) (\<lambda>tree.
     bind (emit (info ''Creating commit...'')) (\<lambda>_.
     bind (call (CreateCommit tree (if latestCommitSha \<noteq> [] then [latestCommitSha] else []))
             (createCommit gh)) (\<lambda>newCommit.
     bind (emit (info ''Updating repository reference...'')) (\<lambda>_.
     bind (call UpdateRef (updateRef gh)) (\<lambda>_.
     bind (enablePages gh owner repoName) (\<lambda>pagesUrl.
     bind (emit \<lparr>step = ''Deployment complete!'', details = Some pagesUrl, kind = TSuccess,
                 progress = None\<rparr>) (\<lambda>_.
     ret pagesUrl)))))))))))))))))"

text \<open>
  \<open>deployZipToGitHub\<close>. The token, the description and the visibility flag only travel
  in requests and are not modelled.
\<close>

definition deployZipToGitHub ::
  "github \<Rightarrow> string \<Rightarrow> zip_analysis \<Rightarrow> string option \<Rightarrow> patch list \<Rightarrow> string run" where
  "deployZipToGitHub gh repoName analysis customDomain patches =
     reportFailure (gitHubBody gh repoName analysis customDomain patches)"

section \<open>The content-addressed backend: \<open>deployZipToFirebase\<close>\<close>

text \<open>
  A \<open>fetch\<close> response as the code reads it: \<open>ok\<close>, \<open>statusText\<close>, and what
  \<open>await res.json()\<close> yields: \<open>error?.message\<close> of the body and the data field that the
  code uses. Reading the body throws when it is not JSON, and the first access to a field
  throws when the body is \<open>null\<close>; both are the error of \<open>json\<close>.
\<close>

record 'a response =
  ok :: bool
  statusText :: string
  json :: "failure + (string option \<times> 'a)"

text \<open>
  The answers of the provider; a \<open>fetch\<close> may throw instead of answering. The version
  answers its \<open>name\<close>, which a body may lack (a name that is not a string is not
  modelled); \<open>populateFiles\<close> answers
  \<open>uploadRequiredHashes\<close>, an array of strings that the code takes as empty when the body
  lacks it; \<open>uploadFile k\<close> is the upload of the hash at index \<open>k\<close> of the required
  hashes, and \<open>uploadArrival i\<close> the order in which the uploads of the batch that starts
  at index \<open>i\<close> resume.
\<close>

record firebase =
  createVersion :: "failure + string option response"
  populateFiles :: "failure + string list response"
  uploadFile :: "nat \<Rightarrow> failure + unit response"
  finalizeVersion :: "failure + unit response"
  createRelease :: "failure + unit response"
  uploadArrival :: "nat \<Rightarrow> nat list"

text \<open>\<open>new Error(msg)\<close>.\<close>

definition newError :: "string \<Rightarrow> failure" where
  "newError msg = \<lparr>err_status = None, err_message = msg\<rparr>"

text \<open>
  \<open>const err = await res.json(); throw new Error(`${what}: ${err.error?.message ||
  res.statusText}`)\<close>.
\<close>

definition throwFailed :: "string \<Rightarrow> 'a response \<Rightarrow> 'b run" where
  "throwFailed what res =
     bind ([], json res) (\<lambda>(message, _).
     throw (newError (what @ '': '' @
       (case message of None \<Rightarrow> statusText res
        | Some m \<Rightarrow> if m \<noteq> [] then m else statusText res))))"

text \<open>
  The pattern \<open>const res = await fetch(...); if (!res.ok) { ...throw }; const data = await
  res.json()\<close> of the version and the \<open>populateFiles\<close> requests, and the same without
  the data for the finalize and the release requests.
\<close>

definition fetchJson :: "request \<Rightarrow> failure + 'a response \<Rightarrow> string \<Rightarrow> 'a run" where
  "fetchJson r answer what =
     bind (call r answer) (\<lambda>res.
     if \<not> ok res then throwFailed what res
     else bind ([], json res) (\<lambda>(_, d). ret d))"

definition fetchOk :: "request \<Rightarrow> failure + unit response \<Rightarrow> string \<Rightarrow> unit run" where
  "fetchOk r answer what =
     bind (call r answer) (\<lambda>res.
     if \<not> ok res then throwFailed what res else ret ())"

text \<open>
  \<open>versionName.split("/").pop()\<close>, and the \<open>TypeError\<close> that \<open>versionName.split\<close> throws
  when the body has no \<open>name\<close> (the message is the one of V8).
\<close>

definition typeError :: failure where
  "typeError =
     \<lparr>err_status = None,
      err_message = ''Cannot read properties of undefined (reading '' @ [sq] @ ''split'' @ [sq] @ '')''\<rparr>"

definition lastSegment :: "string \<Rightarrow> string" where
  "lastSegment s = rev (takeWhile (\<lambda>c. c \<noteq> CHR ''/'') (rev s))"

text \<open>Reading \<open>versionData.name\<close> for the status that follows the version request.\<close>

definition named :: "string option \<Rightarrow> string run" where
  "named name = (case name of None \<Rightarrow> throw typeError | Some versionName \<Rightarrow> ret versionName)"

text \<open>The version request and the name it answers.\<close>

definition newVersion :: "firebase \<Rightarrow> string run" where
  "newVersion fb = bind (fetchJson CreateVersion (createVersion fb) ''Failed to create version'') named"

definition uploadHash :: "firebase \<Rightarrow> string list \<Rightarrow> nat \<Rightarrow> unit run" where
  "uploadHash fb requiredHashes k =
     bind (call (UploadFile k) (uploadFile fb k)) (\<lambda>uploadRes.
     if \<not> ok uploadRes
     then throw (newError (''Failed to upload file with hash '' @ requiredHashes ! k))
     else ret ())"

function uploadRequired :: "firebase \<Rightarrow> string list \<Rightarrow> nat \<Rightarrow> unit run" where
  "uploadRequired fb requiredHashes i =
     (if i < length requiredHashes then
        bind (promiseAll (uploadArrival fb i)
                (map (uploadHash fb requiredHashes)
                     [i ..< min (i + BATCH_SIZE) (length requiredHashes)])) (\<lambda>_.
        bind (emit (uploaded (min (i + BATCH_SIZE) (length requiredHashes)) (length requiredHashes))) (\<lambda>_.
        uploadRequired fb requiredHashes (i + BATCH_SIZE)))
      else ret ())"
  by pat_completeness auto
termination
  by (relation "measure (\<lambda>(fb, requiredHashes, i). length requiredHashes - i)")
     (auto simp: BATCH_SIZE_def)

declare uploadRequired.simps [simp del]

text \<open>
  The \<open>try\<close> block of \<open>deployZipToFirebase\<close>. Hashing the files issues no request and
  emits nothing beyond its opening status; the hash maps only travel in the
  \<open>populateFiles\<close> request. The status after the version request is built from
  \<open>versionName.split\<close>, which throws before the callback is called when the name is
  missing.
\<close>

definition firebaseBody :: "firebase \<Rightarrow> string \<Rightarrow> zip_analysis \<Rightarrow> string run" where
  "firebaseBody fb siteId analysis =
     bind (emit (info ''Creating new version...'')) (\<lambda>_.
     bind (newVersion fb) (\<lambda>versionName.
     bind (emit (success (''Version created: '' @ lastSegment versionName))) (\<lambda>_.
     bind (emit (info ''Calculating file hashes...'')) (\<lambda>_.
     bind (emit (info ''Registering files...'')) (\<lambda>_.
     bind (fetchJson PopulateFiles (populateFiles fb) ''Failed to populate files'') (\<lambda>requiredHashes.
     bind (if length requiredHashes > 0 then
             bind (emit (info (''Uploading '' @ showNat (length requiredHashes) @ '' new files...''))) (\<lambda>_.
             uploadRequired fb requiredHashes 0)
           else emit (info ''All files already exist on Firebase.'')) (\<lambda>_.
     bind (emit (info ''Finalizing version...'')) (\<lambda>_.
     bind (fetchOk FinalizeVersion (finalizeVersion fb) ''Failed to finalize version'') (\<lambda>_.
     bind (emit (info ''Releasing to live...'')) (\<lambda>_.
     bind (fetchOk CreateRelease (createRelease fb) ''Failed to release'') (\<lambda>_.
     bind (emit \<lparr>step = ''Deployment complete!'', details = Some (''https://'' @ siteId @ ''.web.app''),
                 kind = TSuccess, progress = None\<rparr>) (\<lambda>_.
     ret (''https://'' @ siteId @ ''.web.app'')))))))))))))"

definition deployZipToFirebase :: "firebase \<Rightarrow> string \<Rightarrow> zip_analysis \<Rightarrow> string run" where
  "deployZipToFirebase fb siteId analysis = reportFailure (firebaseBody fb siteId analysis)"

text \<open>The statuses among the actions of a run, and those of type \<open>error\<close>.\<close>

definition statuses :: "action list \<Rightarrow> deploy_status list" where
  "statuses as = concat (map (\<lambda>a. case a of Emit st \<Rightarrow> [st] | _ \<Rightarrow> []) as)"

definition events :: "'a run \<Rightarrow> deploy_status list" where
  "events m = statuses (fst m)"

definition errorEvents :: "'a run \<Rightarrow> deploy_status list" where
  "errorEvents m = filter (\<lambda>st. kind st = TError) (events m)"

definition failed :: "'a run \<Rightarrow> bool" where
  "failed m = isl (snd m)"

text \<open>
  The contract of the event sink as the specification words it: exactly one \<open>error\<close>
  event if and only if the deployment fails, none otherwise, and the \<open>error\<close> event is the
  last thing the run does before the error is thrown again.
\<close>

definition errorContract :: "'a run \<Rightarrow> bool" where
  "errorContract m =
     ((failed m \<longleftrightarrow> length (errorEvents m) = 1) \<and>
      (\<not> failed m \<longleftrightarrow> errorEvents m = []) \<and>
      (\<forall>e. snd m = Inl e \<longrightarrow>
         (\<exists>pre. fst m = pre @ [Emit (failedStatus e)]
                \<and> filter (\<lambda>st. kind st = TError) (statuses pre) = [])))"

text \<open>
  The failures that end a deployment. In the Git backend: the upload of the file at index
  \<open>k\<close> fails on all three attempts; the repository is neither created nor, after a 422,
  read. In the content-addressed backend: a request throws, answers not-ok, or its body
  cannot be read, or the version has no name.
\<close>

definition failsThrice :: "github \<Rightarrow> nat \<Rightarrow> bool" where
  "failsThrice gh k = (isl (createBlob gh k 0) \<and> isl (createBlob gh k 1) \<and> isl (createBlob gh k 2))"

definition repositoryFails :: "github \<Rightarrow> bool" where
  "repositoryFails gh =
     (case createForAuthenticatedUser gh of
        Inr _ \<Rightarrow> False
      | Inl e \<Rightarrow> err_status e \<noteq> Some 422 \<or> isl (reposGet gh))"

definition notOk :: "failure + 'a response \<Rightarrow> bool" where
  "notOk answer = (case answer of Inl _ \<Rightarrow> True | Inr res \<Rightarrow> \<not> ok res)"

definition unreadable :: "failure + 'a response \<Rightarrow> bool" where
  "unreadable answer = (case answer of Inl _ \<Rightarrow> True | Inr res \<Rightarrow> \<not> ok res \<or> isl (json res))"

text \<open>The data of an answer that the code can read.\<close>

definition payload :: "failure + 'a response \<Rightarrow> 'a option" where
  "payload answer =
     (case answer of
        Inl _ \<Rightarrow> None
      | Inr res \<Rightarrow> (case json res of Inl _ \<Rightarrow> None | Inr (_, d) \<Rightarrow> Some d))"

text \<open>
  The error that ends a run of the Git backend when a request is answered with it. The
  errors of reading the reference and the commit and of the two hosting requests are
  caught, so is a 422 on creating the repository, and an upload is tried again unless the
  attempt was the third.
\<close>

definition thrown :: "failure + 'a \<Rightarrow> failure option" where
  "thrown answer = (case answer of Inl e \<Rightarrow> Some e | Inr _ \<Rightarrow> None)"

fun fatal :: "github \<Rightarrow> request \<Rightarrow> failure option" where
  "fatal gh GetAuthenticated = thrown (getAuthenticated gh)"
| "fatal gh CreateForAuthenticatedUser =
     (case createForAuthenticatedUser gh of
        Inl e \<Rightarrow> if err_status e = Some 422 then None else Some e
      | Inr _ \<Rightarrow> None)"
| "fatal gh ReposGet = thrown (reposGet gh)"
| "fatal gh (CreateBlob k a) = (if a = 2 then thrown (createBlob gh k a) else None)"
| "fatal gh (CreateTree base items) = thrown (createTree gh)"
| "fatal gh (CreateCommit tree parents) = thrown (createCommit gh)"
| "fatal gh UpdateRef = thrown (updateRef gh)"
| "fatal gh _ = None"

text \<open>
  The error with which the step of a request of the content-addressed backend fails: the
  error thrown by \<open>fetch\<close> or by reading the body, the error made from a not-ok answer,
  the \<open>TypeError\<close> for a version without a name.
\<close>

definition thrownBy :: "'a run \<Rightarrow> failure option" where
  "thrownBy m = thrown (snd m)"

definition requiredOf :: "firebase \<Rightarrow> string list" where
  "requiredOf fb = (case payload (populateFiles fb) of None \<Rightarrow> [] | Some hs \<Rightarrow> hs)"

fun rejection :: "firebase \<Rightarrow> request \<Rightarrow> failure option" where
  "rejection fb CreateVersion = thrownBy (newVersion fb)"
| "rejection fb PopulateFiles =
     thrownBy (fetchJson PopulateFiles (populateFiles fb) ''Failed to populate files'')"
| "rejection fb (UploadFile k) = thrownBy (uploadHash fb (requiredOf fb) k)"
| "rejection fb FinalizeVersion =
     thrownBy (fetchOk FinalizeVersion (finalizeVersion fb) ''Failed to finalize version'')"
| "rejection fb CreateRelease =
     thrownBy (fetchOk CreateRelease (createRelease fb) ''Failed to release'')"
| "rejection fb _ = None"

text \<open>
  Two uploads of one batch, and what an upload pending beside a request of its batch may
  do while that request is in flight: issue its own requests and, in the Git backend,
  wait before a retry.
\<close>

fun batchOf :: "request \<Rightarrow> (nat + nat) option" where
  "batchOf (CreateBlob k a) = Some (Inl (k div 5))"
| "batchOf (UploadFile k) = Some (Inr (k div 5))"
| "batchOf _ = None"

definition sameBatch :: "request \<Rightarrow> request \<Rightarrow> bool" where
  "sameBatch c c' = (batchOf c \<noteq> None \<and> batchOf c = batchOf c')"

fun besides :: "request \<Rightarrow> action \<Rightarrow> bool" where
  "besides c (Call c') = sameBatch c c'"
| "besides (CreateBlob k a) (Delay ms) = (ms = 1000)"
| "besides _ _ = False"

text \<open>The requests of the phases that follow the uploads of the Git backend.\<close>

fun afterUploads :: "request \<Rightarrow> bool" where
  "afterUploads (CreateTree base items) = True"
| "afterUploads (CreateCommit tree parents) = True"
| "afterUploads UpdateRef = True"
| "afterUploads CreatePagesSite = True"
| "afterUploads GetPages = True"
| "afterUploads _ = False"

text \<open>
  What the code holds after reading the head of the branch: \<open>base_tree\<close> of the tree
  request and \<open>parents\<close> of the commit request. An empty SHA is falsy.
\<close>

definition baseTree :: "github \<Rightarrow> string option" where
  "baseTree gh =
     (case getRef gh of
        Inl _ \<Rightarrow> None
      | Inr latestCommitSha \<Rightarrow>
          (case getCommit gh of
             Inl _ \<Rightarrow> None
           | Inr baseTreeSha \<Rightarrow> if baseTreeSha \<noteq> [] then Some baseTreeSha else None))"

definition parentsOf :: "github \<Rightarrow> string list" where
  "parentsOf gh =
     (case getRef gh of
        Inl _ \<Rightarrow> []
      | Inr latestCommitSha \<Rightarrow> if latestCommitSha \<noteq> [] then [latestCommitSha] else [])"

text \<open>
  Helpers for the proofs. A run that stops at the first request answered with an error it
  does not handle: with a value, no request of the run was answered so; with an error, the
  run ends after the request answered with it, and whatever was done since, and every
  other request answered so, belongs to uploads of the same batch.
\<close>

definition clean :: "(request \<Rightarrow> failure option) \<Rightarrow> action list \<Rightarrow> bool" where
  "clean F as = (\<forall>c. Call c \<in> set as \<longrightarrow> F c = None)"

definition halted :: "(request \<Rightarrow> failure option) \<Rightarrow> failure \<Rightarrow> action list \<Rightarrow> bool" where
  "halted F e as =
     (\<exists>pre c post. as = pre @ Call c # post \<and> F c = Some e \<and> (\<forall>a \<in> set post. besides c a)
        \<and> (\<forall>c'. Call c' \<in> set pre \<longrightarrow> F c' \<noteq> None \<longrightarrow> sameBatch c c'))"

definition stops :: "(request \<Rightarrow> failure option) \<Rightarrow> 'a run \<Rightarrow> bool" where
  "stops F m = (case snd m of Inr x \<Rightarrow> clean F (fst m) | Inl e \<Rightarrow> halted F e (fst m))"

text \<open>The attempts to upload the file at index \<open>k\<close> among the actions of a run.\<close>

fun attemptOf :: "nat \<Rightarrow> action \<Rightarrow> bool" where
  "attemptOf k (Call (CreateBlob k' a)) = (k' = k)"
| "attemptOf k _ = False"

text \<open>Helper for the proofs: a computation that hands no \<open>error\<close> status to the callback.\<close>

definition quiet :: "'a run \<Rightarrow> bool" where
  "quiet m = (errorEvents m = [])"

section \<open>Example runs\<close>

text \<open>A provider that answers every request with success, a small analysis, and two
  failures, used for the examples below.\<close>

definition okGitHub :: github where
  "okGitHub =
     \<lparr>getAuthenticated = Inr ''octocat'', createForAuthenticatedUser = Inr ''main'',
      reposGet = Inr ''main'', getRef = Inr ''c0'', getCommit = Inr ''t0'',
      createBlob = (\<lambda>k a. Inr ''b''), createTree = Inr ''t1'', createCommit = Inr ''c1'',
      updateRef = Inr (), createPagesSite = Inr ''https://octocat.github.io/site/'',
      getPages = Inr [], blobArrival = (\<lambda>i. [])\<rparr>"

definition okResponse :: "'a \<Rightarrow> 'a response" where
  "okResponse d = \<lparr>ok = True, statusText = ''OK'', json = Inr (None, d)\<rparr>"

definition okFirebase :: firebase where
  "okFirebase =
     \<lparr>createVersion = Inr (okResponse (Some ''sites/site/versions/v1'')),
      populateFiles = Inr (okResponse []),
      uploadFile = (\<lambda>k. Inr (okResponse ())),
      finalizeVersion = Inr (okResponse ()),
      createRelease = Inr (okResponse ()),
      uploadArrival = (\<lambda>i. [])\<rparr>"

definition sampleAnalysis :: zip_analysis where
  "sampleAnalysis =
     \<lparr>fileCount = 1, totalSize = 2, projectType = StaticWebsite,
      files = [\<lparr>f_path = ''index.html'', f_size = 2, f_entry = ''hi''\<rparr>],
      warnings = [], ignoredFiles = []\<rparr>"

definition httpError :: "int \<Rightarrow> failure" where
  "httpError code = \<lparr>err_status = Some code, err_message = ''Request failed''\<rparr>"

text \<open>
  Helpers for the statements and proofs about warnings: a kept file that the absolute-path
  scan reads and that holds a root-absolute reference; the content of \<open>index.html\<close> that
  the loop captures, as a function of the kept files; the loop invariant for the warnings
  and the captured content; and the references of a list that the asset check reports.
\<close>

definition absoluteHit :: "manifest_file \<Rightarrow> bool" where
  "absoluteHit f = (scanned (f_path f) (f_size f) \<and> absTest (f_entry f))"

definition capturedIndexHtml :: "manifest_file list \<Rightarrow> string" where
  "capturedIndexHtml fs =
     foldl (\<lambda>c f. if f_path f = ''index.html'' \<and> f_size f < 500 * 1024 then f_entry f else c) [] fs"

definition contentInv :: "scan \<Rightarrow> bool" where
  "contentInv st =
     (s_warnings st = (if list_ex absoluteHit (s_files st) then [absoluteWarning] else []) \<and>
      s_indexHtmlContent st = capturedIndexHtml (s_files st))"

definition missingRefs :: "manifest_file list \<Rightarrow> string list \<Rightarrow> string list" where
  "missingRefs fs refs =
     map normalizeRef (filter (\<lambda>r. \<not> skippedRef r \<and> \<not> list_ex (\<lambda>f. f_path f = normalizeRef r) fs) refs)"

text \<open>
  The classifier as the specification words it: an ordered decision list over the kept
  files, the first rule whose signal is present decides, \<open>Unknown\<close> otherwise.
\<close>

definition hasPath :: "(string \<Rightarrow> bool) \<Rightarrow> manifest_file list \<Rightarrow> bool" where
  "hasPath P fs = list_ex (\<lambda>f. P (f_path f)) fs"

definition decisionList :: "((manifest_file list \<Rightarrow> bool) \<times> project_type) list" where
  "decisionList =
     [(hasPath (\<lambda>p. includesStr p ''vite.config.js'' \<or> includesStr p ''vite.config.ts''), Vite),
      (hasPath (\<lambda>p. includesStr p ''next.config.js'' \<or> includesStr p ''next.config.mjs''
                     \<or> includesStr p ''next.config.ts''), NextJs),
      (hasPath (\<lambda>p. p = ''angular.json''), Angular),
      (hasPath (\<lambda>p. includesStr p ''vue.config.js''), Vue),
      (\<lambda>fs. hasPath (\<lambda>p. p = ''package.json'') fs \<and> hasPath (\<lambda>p. includesStr p ''react-scripts'') fs,
         CreateReactApp),
      (hasPath (\<lambda>p. p = ''index.html''), StaticWebsite),
      (hasPath (\<lambda>p. p = ''package.json''), NodeProject)]"

fun firstMatch :: "((manifest_file list \<Rightarrow> bool) \<times> project_type) list \<Rightarrow> manifest_file list \<Rightarrow> project_type" where
  "firstMatch [] fs = Unknown"
| "firstMatch ((signal, t) # rules) fs = (if signal fs then t else firstMatch rules fs)"

definition classifierSpec :: "manifest_file list \<Rightarrow> project_type" where
  "classifierSpec fs = firstMatch decisionList fs"


chapter \<open>Properties\<close>

section \<open>Common root folder\<close>

lemma startsWith_prefix: "startsWith s p \<longleftrightarrow> (\<exists>r. s = p @ r)"
  unfolding startsWith_def by (metis append_eq_conv_conj append_take_drop_id)

lemma startsWith_trans: "startsWith s p \<Longrightarrow> startsWith p q \<Longrightarrow> startsWith s q"
  by (auto simp: startsWith_prefix)

lemma startsWith_take: "startsWith s (take n s)"
  by (metis append_take_drop_id startsWith_prefix)

lemma between_common:
  fixes a p b :: string
  shows "a \<le> p \<Longrightarrow> p \<le> b \<Longrightarrow> startsWith a q \<Longrightarrow> startsWith b q \<Longrightarrow> startsWith p q"
proof (induction q arbitrary: a p b)
  case Nil
  then show ?case by (simp add: startsWith_def)
next
  case (Cons c q)
  from Cons.prems obtain a' b' where a: "a = c # a'" and b: "b = c # b'"
    and sa: "startsWith a' q" and sb: "startsWith b' q"
    by (auto simp: startsWith_prefix)
  from Cons.prems(1) a obtain x p' where p: "p = x # p'"
    by (cases p) auto
  from Cons.prems(1,2) a b p have "x = c" and "a' \<le> p'" and "p' \<le> b'"
    by auto
  with Cons.IH sa sb have "startsWith p' q" by blast
  with p \<open>x = c\<close> show ?case by (simp add: startsWith_def)
qed

lemma commonLen_step:
  "i < length a \<Longrightarrow> charAt a i = charAt b i \<Longrightarrow> commonLen a b i = commonLen a b (Suc i)"
  by (subst commonLen.simps) simp

lemma commonLen_stop:
  "\<not> (i < length a \<and> charAt a i = charAt b i) \<Longrightarrow> commonLen a b i = i"
  by (subst commonLen.simps) (simp only: if_False)

lemma commonLen_spec:
  "i \<le> length a \<Longrightarrow> i \<le> length b \<Longrightarrow> take i a = take i b \<Longrightarrow>
   commonLen a b i \<le> length a \<and> commonLen a b i \<le> length b \<and>
   take (commonLen a b i) a = take (commonLen a b i) b \<and>
   (\<forall>q. startsWith a q \<and> startsWith b q \<longrightarrow> length q \<le> commonLen a b i)"
proof (induction a b i rule: commonLen.induct)
  case (1 first lst i)
  show ?case
  proof (cases "i < length first \<and> charAt first i = charAt lst i")
    case True
    then have il: "i < length lst" and eq: "first ! i = lst ! i"
      by (auto simp: charAt_def split: if_splits)
    from True il eq "1.prems" have "take (Suc i) first = take (Suc i) lst"
      by (simp add: take_Suc_conv_app_nth)
    with "1.IH" True il show ?thesis
      by (simp add: commonLen_step)
  next
    case False
    have c: "commonLen first lst i = i"
      using False by (rule commonLen_stop)
    have "length q \<le> i" if qa: "startsWith first q" and qb: "startsWith lst q" for q
    proof (rule ccontr)
      assume "\<not> length q \<le> i"
      then have lt: "i < length q" by simp
      from qa qb have "take (length q) first = q" "take (length q) lst = q"
        by (simp_all add: startsWith_def)
      then have "i < length first" "i < length lst" "first ! i = q ! i" "lst ! i = q ! i"
        using lt by (metis length_take min_less_iff_conj, metis length_take min_less_iff_conj,
            metis nth_take, metis nth_take)
      with False show False by (simp add: charAt_def)
    qed
    with c "1.prems" show ?thesis by simp
  qed
qed

lemma lastIndexOf_ge: "- 1 \<le> lastIndexOf s c"
  by (induction s) (auto simp: Let_def)

lemma lastIndexOf_none: "lastIndexOf s c = - 1 \<longleftrightarrow> c \<notin> set s"
proof (induction s)
  case Nil
  then show ?case by simp
next
  case (Cons x xs)
  have "- 1 \<le> lastIndexOf xs c" by (rule lastIndexOf_ge)
  with Cons show ?case by (auto simp: Let_def)
qed

lemma lastIndexOf_some:
  "c \<in> set s \<Longrightarrow> 0 \<le> lastIndexOf s c \<and> nat (lastIndexOf s c) < length s \<and>
     s ! nat (lastIndexOf s c) = c \<and> (\<forall>j < length s. s ! j = c \<longrightarrow> j \<le> nat (lastIndexOf s c))"
proof (induction s)
  case Nil
  then show ?case by simp
next
  case (Cons x xs)
  show ?case
  proof (cases "c \<in> set xs")
    case True
    with Cons.IH have ih: "0 \<le> lastIndexOf xs c" "nat (lastIndexOf xs c) < length xs"
      "xs ! nat (lastIndexOf xs c) = c" "\<forall>j < length xs. xs ! j = c \<longrightarrow> j \<le> nat (lastIndexOf xs c)"
      by auto
    from True have ne: "lastIndexOf xs c \<noteq> - 1" by (simp add: lastIndexOf_none)
    have eq: "lastIndexOf (x # xs) c = lastIndexOf xs c + 1"
      using ne by (simp add: Let_def)
    have n: "nat (lastIndexOf xs c + 1) = Suc (nat (lastIndexOf xs c))"
      using ih(1) by simp
    show ?thesis
      unfolding eq n using ih
      by (auto simp: nth_Cons split: nat.splits)
  next
    case False
    then have "lastIndexOf xs c = - 1" by (simp add: lastIndexOf_none)
    moreover from False Cons.prems have "x = c" by simp
    ultimately show ?thesis using False
      by (auto simp: Let_def nth_Cons split: nat.splits)
  qed
qed


lemma sort_bounds:
  fixes paths :: "string list"
  assumes "p \<in> set paths"
  shows "sort paths ! 0 \<le> p" and "p \<le> sort paths ! (length (sort paths) - 1)"
proof -
  obtain k where k: "k < length (sort paths)" "sort paths ! k = p"
    by (metis assms in_set_conv_nth set_sort)
  have s: "sorted (sort paths)" by simp
  from sorted_nth_mono [OF s, of 0 k] k show "sort paths ! 0 \<le> p" by simp
  from sorted_nth_mono [OF s, of k "length (sort paths) - 1"] k
  show "p \<le> sort paths ! (length (sort paths) - 1)" by simp
qed

lemma lcpEnds_common:
  assumes "p \<in> set paths"
  shows "startsWith p (lcpEnds paths)"
proof -
  let ?a = "sort paths ! 0" and ?b = "sort paths ! (length (sort paths) - 1)"
  from commonLen_spec [of 0 ?a ?b]
  have t: "take (commonLen ?a ?b 0) ?a = take (commonLen ?a ?b 0) ?b" by simp
  have "startsWith ?a (lcpEnds paths)"
    unfolding lcpEnds_def by (rule startsWith_take)
  moreover have "startsWith ?b (lcpEnds paths)"
    unfolding lcpEnds_def t by (rule startsWith_take)
  ultimately show ?thesis
    using between_common sort_bounds [OF assms] by blast
qed

lemma lcpEnds_longest:
  assumes ne: "paths \<noteq> []" and q: "\<forall>p \<in> set paths. startsWith p q"
  shows "startsWith (lcpEnds paths) q"
proof -
  let ?a = "sort paths ! 0" and ?b = "sort paths ! (length (sort paths) - 1)"
  from ne have "?a \<in> set (sort paths)" "?b \<in> set (sort paths)"
    by (simp_all del: set_sort add: nth_mem)
  with q have qa: "startsWith ?a q" and qb: "startsWith ?b q" by simp_all
  with commonLen_spec [of 0 ?a ?b] have "length q \<le> commonLen ?a ?b 0" by simp
  with qa show ?thesis
    unfolding lcpEnds_def startsWith_def by (metis min.absorb2 take_take min.commute)
qed

lemma commonPrefix_eq:
  "commonPrefix paths =
     (if paths \<noteq> [] \<and> CHR ''/'' \<in> set (lcpEnds paths)
      then take (nat (lastIndexOf (lcpEnds paths) (CHR ''/'') + 1)) (lcpEnds paths) else [])"
proof (cases "paths \<noteq> [] \<and> CHR ''/'' \<in> set (lcpEnds paths)")
  case True
  let ?pp = "take (nat (lastIndexOf (lcpEnds paths) (CHR ''/'') + 1)) (lcpEnds paths)"
  have "list_all (\<lambda>p. startsWith p ?pp) paths"
    unfolding list_all_iff using lcpEnds_common startsWith_take startsWith_trans by blast
  with True show ?thesis
    by (simp add: commonPrefix_def Let_def lastIndexOf_none lcpEnds_def)
next
  case False
  then show ?thesis
    by (auto simp: commonPrefix_def Let_def lastIndexOf_none lcpEnds_def)
qed

lemma commonPrefix_none:
  "\<not> (paths \<noteq> [] \<and> CHR ''/'' \<in> set (lcpEnds paths)) \<Longrightarrow> commonPrefix paths = []"
  by (subst commonPrefix_eq) (simp only: if_False)

lemma commonPrefix_some:
  "paths \<noteq> [] \<and> CHR ''/'' \<in> set (lcpEnds paths) \<Longrightarrow>
   commonPrefix paths = take (nat (lastIndexOf (lcpEnds paths) (CHR ''/'') + 1)) (lcpEnds paths)"
  by (subst commonPrefix_eq) simp

lemma commonPrefix_all: "p \<in> set paths \<Longrightarrow> startsWith p (commonPrefix paths)"
proof (cases "paths \<noteq> [] \<and> CHR ''/'' \<in> set (lcpEnds paths)")
  case True
  assume "p \<in> set paths"
  then have "startsWith p (lcpEnds paths)" by (rule lcpEnds_common)
  then show ?thesis
    unfolding commonPrefix_some [OF True] using startsWith_take startsWith_trans by blast
next
  case False
  then show ?thesis by (simp add: commonPrefix_none startsWith_def)
qed

lemma commonPrefix_slash:
  "commonPrefix paths = [] \<or> last (commonPrefix paths) = CHR ''/''"
proof (cases "paths \<noteq> [] \<and> CHR ''/'' \<in> set (lcpEnds paths)")
  case True
  then have m: "CHR ''/'' \<in> set (lcpEnds paths)" by simp
  let ?k = "nat (lastIndexOf (lcpEnds paths) (CHR ''/''))"
  from lastIndexOf_some [OF m] have k: "?k < length (lcpEnds paths)" "lcpEnds paths ! ?k = CHR ''/''"
    and z: "0 \<le> lastIndexOf (lcpEnds paths) (CHR ''/'')"
    by simp_all
  from z have "nat (lastIndexOf (lcpEnds paths) (CHR ''/'') + 1) = Suc ?k" by simp
  with k show ?thesis
    by (simp add: commonPrefix_some [OF True] take_Suc_conv_app_nth)
next
  case False
  then show ?thesis by (simp add: commonPrefix_none)
qed

lemma commonPrefix_max:
  assumes ne: "paths \<noteq> []" and q: "\<forall>p \<in> set paths. startsWith p (d @ ''/'')"
  shows "startsWith (commonPrefix paths) (d @ ''/'')"
proof -
  from lcpEnds_longest [OF ne q] obtain r where r: "lcpEnds paths = d @ ''/'' @ r"
    by (auto simp: startsWith_prefix)
  then have m: "CHR ''/'' \<in> set (lcpEnds paths)" by simp
  let ?k = "nat (lastIndexOf (lcpEnds paths) (CHR ''/''))"
  from r have "length d < length (lcpEnds paths)" "lcpEnds paths ! length d = CHR ''/''"
    by simp_all
  with lastIndexOf_some [OF m] have "length d \<le> ?k" and z: "0 \<le> lastIndexOf (lcpEnds paths) (CHR ''/'')"
    by simp_all
  from z have "nat (lastIndexOf (lcpEnds paths) (CHR ''/'') + 1) = Suc ?k" by simp
  with \<open>length d \<le> ?k\<close> show ?thesis
    by (simp add: commonPrefix_some [of paths] ne m startsWith_def r)
qed


section \<open>The loop of \<open>analyzeZip\<close> and the classifier\<close>

lemma foldl_invariant:
  "P s \<Longrightarrow> (\<And>st x. P st \<Longrightarrow> x \<in> set xs \<Longrightarrow> P (f st x)) \<Longrightarrow> P (foldl f s xs)"
  by (induction xs arbitrary: s) auto

lemma note_files [simp]:
  "s_files (noteIndexHtml p n c st) = s_files st"
  "s_files (notePackageJson p st) = s_files st"
  "s_files (noteDistOrBuild p st) = s_files st"
  "s_files (noteAbsolutePaths p n c st) = s_files st"
  "s_files (keepFile p n c st) = s_files st @ [\<lparr>f_path = p, f_size = n, f_entry = c\<rparr>]"
  by (simp_all add: noteIndexHtml_def notePackageJson_def noteDistOrBuild_def noteAbsolutePaths_def keepFile_def)

lemma note_totalSize [simp]:
  "s_totalSize (noteIndexHtml p n c st) = s_totalSize st"
  "s_totalSize (notePackageJson p st) = s_totalSize st"
  "s_totalSize (noteDistOrBuild p st) = s_totalSize st"
  "s_totalSize (noteAbsolutePaths p n c st) = s_totalSize st"
  "s_totalSize (keepFile p n c st) = s_totalSize st + n"
  by (simp_all add: noteIndexHtml_def notePackageJson_def noteDistOrBuild_def noteAbsolutePaths_def keepFile_def)

lemma note_hasIndexHtml [simp]:
  "s_hasIndexHtml (noteIndexHtml p n c st) = (p = ''index.html'' \<or> s_hasIndexHtml st)"
  "s_hasIndexHtml (notePackageJson p st) = s_hasIndexHtml st"
  "s_hasIndexHtml (noteDistOrBuild p st) = s_hasIndexHtml st"
  "s_hasIndexHtml (noteAbsolutePaths p n c st) = s_hasIndexHtml st"
  "s_hasIndexHtml (keepFile p n c st) = s_hasIndexHtml st"
  by (simp_all add: noteIndexHtml_def notePackageJson_def noteDistOrBuild_def noteAbsolutePaths_def keepFile_def)

lemma note_hasPackageJson [simp]:
  "s_hasPackageJson (noteIndexHtml p n c st) = s_hasPackageJson st"
  "s_hasPackageJson (notePackageJson p st) = (p = ''package.json'' \<or> s_hasPackageJson st)"
  "s_hasPackageJson (noteDistOrBuild p st) = s_hasPackageJson st"
  "s_hasPackageJson (noteAbsolutePaths p n c st) = s_hasPackageJson st"
  "s_hasPackageJson (keepFile p n c st) = s_hasPackageJson st"
  by (simp_all add: noteIndexHtml_def notePackageJson_def noteDistOrBuild_def noteAbsolutePaths_def keepFile_def)


lemma note_warnings [simp]:
  "s_warnings (noteIndexHtml p n c st) = s_warnings st"
  "s_warnings (notePackageJson p st) = s_warnings st"
  "s_warnings (noteDistOrBuild p st) = s_warnings st"
  "s_warnings (keepFile p n c st) = s_warnings st"
  by (simp_all add: noteIndexHtml_def notePackageJson_def noteDistOrBuild_def keepFile_def)

lemma noteAbsolutePaths_warnings:
  "s_warnings (noteAbsolutePaths p n c st) =
     (if scanned p n \<and> absTest c \<and> absoluteWarning \<notin> set (s_warnings st)
      then s_warnings st @ [absoluteWarning] else s_warnings st)"
  by (simp add: noteAbsolutePaths_def)

lemma note_indexHtmlContent [simp]:
  "s_indexHtmlContent (notePackageJson p st) = s_indexHtmlContent st"
  "s_indexHtmlContent (noteDistOrBuild p st) = s_indexHtmlContent st"
  "s_indexHtmlContent (noteAbsolutePaths p n c st) = s_indexHtmlContent st"
  "s_indexHtmlContent (keepFile p n c st) = s_indexHtmlContent st"
  by (simp_all add: notePackageJson_def noteDistOrBuild_def noteAbsolutePaths_def keepFile_def)

lemma processFile_files:
  "s_files (processFile cp st raw) =
     (if ignoreReason (finalPathOf cp raw) \<noteq> [] then s_files st else s_files st @ [keptFile cp raw])"
  by (simp add: processFile_def Let_def keptFile_def)

lemma processFile_hasIndexHtml:
  "s_hasIndexHtml (processFile cp st raw) =
     (ignoreReason (finalPathOf cp raw) = [] \<and> finalPathOf cp raw = ''index.html'' \<or> s_hasIndexHtml st)"
  by (simp add: processFile_def Let_def)

lemma processFile_hasPackageJson:
  "s_hasPackageJson (processFile cp st raw) =
     (ignoreReason (finalPathOf cp raw) = [] \<and> finalPathOf cp raw = ''package.json'' \<or> s_hasPackageJson st)"
  by (simp add: processFile_def Let_def)

lemma processFile_totalSize:
  "s_totalSize (processFile cp st raw) =
     (if ignoreReason (finalPathOf cp raw) \<noteq> [] then s_totalSize st else s_totalSize st + uncompressedSize raw)"
  by (simp add: processFile_def Let_def)

lemma processFile_warnings:
  "s_warnings (processFile cp st raw) =
     (if ignoreReason (finalPathOf cp raw) = [] \<and> scanned (finalPathOf cp raw) (uncompressedSize raw)
         \<and> absTest (content raw) \<and> absoluteWarning \<notin> set (s_warnings st)
      then s_warnings st @ [absoluteWarning] else s_warnings st)"
  by (simp add: processFile_def Let_def noteAbsolutePaths_warnings)

lemma processFile_flagsInv: "flagsInv st \<Longrightarrow> flagsInv (processFile cp st raw)"
  by (auto simp: flagsInv_def processFile_files processFile_hasIndexHtml processFile_hasPackageJson
      processFile_totalSize keptFile_def)

lemma scanZip_flagsInv: "flagsInv (scanZip entries)"
  unfolding scanZip_def Let_def
  by (rule foldl_invariant) (simp_all add: processFile_flagsInv, simp add: flagsInv_def initialScan_def)

lemma classify_spec:
  assumes "flagsInv st"
  shows "classify st = classifierSpec (s_files st)"
  using assms by (simp add: flagsInv_def classify_def classifierSpec_def decisionList_def hasPath_def)

text \<open>
  Claim C1. The project type that \<open>analyzeZip\<close> returns is a function of the kept files
  alone: it is the first rule of the ordered decision list Vite, Next.js, Angular, Vue,
  Create React App, static site, Node project whose signal the kept files show, and
  \<open>Unknown\<close> when none does. An archive with a Vite config and \<open>angular.json\<close> is Vite,
  and Create React App needs \<open>package.json\<close> and a path naming \<open>react-scripts\<close>.
\<close>

theorem classifier_decision_list:
  "projectType (analyzeZip entries) = classifierSpec (files (analyzeZip entries)) \<and>
   (hasPath (\<lambda>p. includesStr p ''vite.config.js'' \<or> includesStr p ''vite.config.ts'') (files (analyzeZip entries))
      \<and> hasPath (\<lambda>p. p = ''angular.json'') (files (analyzeZip entries))
    \<longrightarrow> projectType (analyzeZip entries) = Vite) \<and>
   (projectType (analyzeZip entries) = CreateReactApp
    \<longrightarrow> hasPath (\<lambda>p. p = ''package.json'') (files (analyzeZip entries))
      \<and> hasPath (\<lambda>p. includesStr p ''react-scripts'') (files (analyzeZip entries)))"
proof -
  have eq: "projectType (analyzeZip entries) = classifierSpec (files (analyzeZip entries))"
    using scanZip_flagsInv [of entries] by (simp add: analyzeZip_def Let_def classify_spec)
  show ?thesis
    unfolding eq by (simp add: classifierSpec_def decisionList_def)
qed


theorem classifier_decision_list_witness:
  "hasPath (\<lambda>p. includesStr p ''vite.config.js'' \<or> includesStr p ''vite.config.ts'')
     (files (analyzeZip
       [\<lparr>relativePath = ''vite.config.ts'', dir = False, uncompressedSize = 2, content = ''{}''\<rparr>,
        \<lparr>relativePath = ''angular.json'', dir = False, uncompressedSize = 2, content = ''{}''\<rparr>])) \<and>
   hasPath (\<lambda>p. p = ''angular.json'')
     (files (analyzeZip
       [\<lparr>relativePath = ''vite.config.ts'', dir = False, uncompressedSize = 2, content = ''{}''\<rparr>,
        \<lparr>relativePath = ''angular.json'', dir = False, uncompressedSize = 2, content = ''{}''\<rparr>])) \<and>
   projectType (analyzeZip
       [\<lparr>relativePath = ''vite.config.ts'', dir = False, uncompressedSize = 2, content = ''{}''\<rparr>,
        \<lparr>relativePath = ''angular.json'', dir = False, uncompressedSize = 2, content = ''{}''\<rparr>]) = Vite \<and>
   projectType (analyzeZip
       [\<lparr>relativePath = ''package.json'', dir = False, uncompressedSize = 2, content = ''{}''\<rparr>,
        \<lparr>relativePath = ''react-scripts.js'', dir = False, uncompressedSize = 0, content = []\<rparr>]) = CreateReactApp \<and>
   hasPath (\<lambda>p. includesStr p ''react-scripts'')
     (files (analyzeZip
       [\<lparr>relativePath = ''package.json'', dir = False, uncompressedSize = 2, content = ''{}''\<rparr>,
        \<lparr>relativePath = ''react-scripts.js'', dir = False, uncompressedSize = 0, content = []\<rparr>]))"
proof -
  let ?A = "[\<lparr>relativePath = ''vite.config.ts'', dir = False, uncompressedSize = 2, content = ''{}''\<rparr>,
        \<lparr>relativePath = ''angular.json'', dir = False, uncompressedSize = 2, content = ''{}''\<rparr>]"
  let ?B = "[\<lparr>relativePath = ''package.json'', dir = False, uncompressedSize = 2, content = ''{}''\<rparr>,
        \<lparr>relativePath = ''react-scripts.js'', dir = False, uncompressedSize = 0, content = []\<rparr>]"
  have v: "hasPath (\<lambda>p. includesStr p ''vite.config.js'' \<or> includesStr p ''vite.config.ts'') (files (analyzeZip ?A))"
    by code_simp
  have a: "hasPath (\<lambda>p. p = ''angular.json'') (files (analyzeZip ?A))"
    by code_simp
  have c: "projectType (analyzeZip ?B) = CreateReactApp"
    by code_simp
  have r1: "projectType (analyzeZip ?A) = Vite"
    by (rule mp [OF conjunct1 [OF conjunct2 [OF classifier_decision_list]] conjI [OF v a]])
  have r2: "hasPath (\<lambda>p. includesStr p ''react-scripts'') (files (analyzeZip ?B))"
    by (rule conjunct2 [OF mp [OF conjunct2 [OF conjunct2 [OF classifier_decision_list]] c]])
  show ?thesis
    by (intro conjI v a c r1 r2)
qed


section \<open>Common root folder: what is removed\<close>

lemma scan_paths:
  "map f_path (s_files (foldl (processFile cp) st raws)) =
     map f_path (s_files st)
     @ map (finalPathOf cp) (filter (\<lambda>r. ignoreReason (finalPathOf cp r) = []) raws)"
  by (induction raws arbitrary: st) (simp_all add: processFile_files keptFile_def)

lemma analyzeZip_paths:
  "map f_path (files (analyzeZip entries))
     = filter (\<lambda>p. ignoreReason p = [])
         (map (\<lambda>raw. drop (length (commonPrefix (map relativePath (rawFilesOf entries)))) (relativePath raw))
              (rawFilesOf entries))"
proof -
  let ?cp = "commonPrefix (map relativePath (rawFilesOf entries))"
  have f: "finalPathOf ?cp = (\<lambda>raw. drop (length ?cp) (relativePath raw))"
    by (rule ext) (simp add: finalPathOf_def)
  have "map f_path (files (analyzeZip entries))
      = map (finalPathOf ?cp) (filter (\<lambda>r. ignoreReason (finalPathOf ?cp r) = []) (rawFilesOf entries))"
    by (simp add: analyzeZip_def scanZip_def Let_def scan_paths initialScan_def)
  also have "\<dots> = filter (\<lambda>p. ignoreReason p = []) (map (finalPathOf ?cp) (rawFilesOf entries))"
    by (simp add: filter_map comp_def)
  finally show ?thesis unfolding f .
qed

text \<open>
  Claim C2, as amended. The root that \<open>analyzeZip\<close> removes is a prefix of every entry
  path and is empty or ends at a slash, so only whole path segments are removed, and the
  kept files are the entries that are not ignored, each under its path without the root.
  Every folder that wraps all entries lies inside the removed root, and when exactly one
  folder wraps every entry the removed root is exactly that folder; folders nested in one
  another that wrap every entry are removed together. A set holding \<open>foobar/x\<close> and
  \<open>foo/x\<close> never loses \<open>foo/\<close>.
\<close>

theorem common_root_removed:
  "map f_path (files (analyzeZip entries))
     = filter (\<lambda>p. ignoreReason p = [])
         (map (\<lambda>raw. drop (length (commonPrefix (map relativePath (rawFilesOf entries)))) (relativePath raw))
              (rawFilesOf entries)) \<and>
   list_all (\<lambda>p. startsWith p (commonPrefix (map relativePath (rawFilesOf entries))))
     (map relativePath (rawFilesOf entries)) \<and>
   (commonPrefix (map relativePath (rawFilesOf entries)) = []
      \<or> last (commonPrefix (map relativePath (rawFilesOf entries))) = CHR ''/'') \<and>
   (rawFilesOf entries \<noteq> [] \<and> wraps d (map relativePath (rawFilesOf entries)) \<longrightarrow>
      startsWith (commonPrefix (map relativePath (rawFilesOf entries))) (d @ ''/'')) \<and>
   (wraps d (map relativePath (rawFilesOf entries))
      \<and> (\<forall>d'. wraps d' (map relativePath (rawFilesOf entries)) \<longrightarrow> d' = d) \<longrightarrow>
      commonPrefix (map relativePath (rawFilesOf entries)) = d @ ''/'') \<and>
   (''foobar/x'' \<in> set (map relativePath (rawFilesOf entries))
      \<and> ''foo/x'' \<in> set (map relativePath (rawFilesOf entries)) \<longrightarrow>
      commonPrefix (map relativePath (rawFilesOf entries)) \<noteq> ''foo/'')"
proof (intro conjI impI)
  let ?paths = "map relativePath (rawFilesOf entries)"
  show "map f_path (files (analyzeZip entries))
     = filter (\<lambda>p. ignoreReason p = [])
         (map (\<lambda>raw. drop (length (commonPrefix ?paths)) (relativePath raw)) (rawFilesOf entries))"
    by (rule analyzeZip_paths)
  show "list_all (\<lambda>p. startsWith p (commonPrefix ?paths)) ?paths"
    by (simp add: list_all_iff commonPrefix_all)
  show "commonPrefix ?paths = [] \<or> last (commonPrefix ?paths) = CHR ''/''"
    by (rule commonPrefix_slash)
  show "startsWith (commonPrefix ?paths) (d @ ''/'')" if "rawFilesOf entries \<noteq> [] \<and> wraps d ?paths"
    using that commonPrefix_max [of ?paths d] by (simp add: wraps_def list_all_iff)
  show "commonPrefix ?paths = d @ ''/''"
    if h: "wraps d ?paths \<and> (\<forall>d'. wraps d' ?paths \<longrightarrow> d' = d)"
  proof -
    from h have "wraps d ?paths" ..
    then have w: "\<forall>p \<in> set ?paths. startsWith p (d @ ''/'')"
      by (simp add: wraps_def list_all_iff)
    have ne: "?paths \<noteq> []"
    proof
      assume "?paths = []"
      then have "wraps (CHR ''a'' # d) ?paths" by (simp add: wraps_def)
      with h have "CHR ''a'' # d = d" by blast
      then show False by simp
    qed
    from ne w have sw: "startsWith (commonPrefix ?paths) (d @ ''/'')"
      by (rule commonPrefix_max)
    then have cne: "commonPrefix ?paths \<noteq> []" by (auto simp: startsWith_def)
    with commonPrefix_slash [of ?paths] have "last (commonPrefix ?paths) = CHR ''/''" by simp
    with cne obtain c where eq: "commonPrefix ?paths = c @ ''/''"
      by (metis append_butlast_last_id)
    have "wraps c ?paths"
      unfolding wraps_def list_all_iff using commonPrefix_all [of _ ?paths] by (simp add: eq)
    with h have "c = d" by blast
    with eq show ?thesis by simp
  qed
  show "commonPrefix ?paths \<noteq> ''foo/''" if "''foobar/x'' \<in> set ?paths \<and> ''foo/x'' \<in> set ?paths"
  proof -
    from that have "''foobar/x'' \<in> set ?paths" ..
    then have "startsWith ''foobar/x'' (commonPrefix ?paths)" by (rule commonPrefix_all)
    then show ?thesis by (auto simp: startsWith_def)
  qed
qed

theorem common_root_removed_witness:
  "wraps ''proj''
     (map relativePath (rawFilesOf
        [\<lparr>relativePath = ''proj/'', dir = True, uncompressedSize = 0, content = []\<rparr>,
         \<lparr>relativePath = ''proj/index.html'', dir = False, uncompressedSize = 2, content = ''hi''\<rparr>,
         \<lparr>relativePath = ''proj/css/a.css'', dir = False, uncompressedSize = 1, content = ''x''\<rparr>])) \<and>
   map f_path (files (analyzeZip
        [\<lparr>relativePath = ''proj/'', dir = True, uncompressedSize = 0, content = []\<rparr>,
         \<lparr>relativePath = ''proj/index.html'', dir = False, uncompressedSize = 2, content = ''hi''\<rparr>,
         \<lparr>relativePath = ''proj/css/a.css'', dir = False, uncompressedSize = 1, content = ''x''\<rparr>]))
     = [''index.html'', ''css/a.css''] \<and>
   startsWith (commonPrefix (map relativePath (rawFilesOf
        [\<lparr>relativePath = ''proj/src/a.js'', dir = False, uncompressedSize = 1, content = ''a''\<rparr>,
         \<lparr>relativePath = ''proj/src/b.js'', dir = False, uncompressedSize = 1, content = ''b''\<rparr>])))
     ''proj/'' \<and>
   commonPrefix (map relativePath (rawFilesOf
        [\<lparr>relativePath = ''foobar/x'', dir = False, uncompressedSize = 1, content = ''x''\<rparr>,
         \<lparr>relativePath = ''foo/x'', dir = False, uncompressedSize = 1, content = ''y''\<rparr>])) \<noteq> ''foo/''"
proof -
  let ?E = "[\<lparr>relativePath = ''proj/'', dir = True, uncompressedSize = 0, content = []\<rparr>,
         \<lparr>relativePath = ''proj/index.html'', dir = False, uncompressedSize = 2, content = ''hi''\<rparr>,
         \<lparr>relativePath = ''proj/css/a.css'', dir = False, uncompressedSize = 1, content = ''x''\<rparr>]"
  let ?G = "[\<lparr>relativePath = ''foobar/x'', dir = False, uncompressedSize = 1, content = ''x''\<rparr>,
         \<lparr>relativePath = ''foo/x'', dir = False, uncompressedSize = 1, content = ''y''\<rparr>]"
  let ?N = "[\<lparr>relativePath = ''proj/src/a.js'', dir = False, uncompressedSize = 1, content = ''a''\<rparr>,
         \<lparr>relativePath = ''proj/src/b.js'', dir = False, uncompressedSize = 1, content = ''b''\<rparr>]"
  let ?P = "[''proj/index.html'', ''proj/css/a.css'']"
  have raw: "rawFilesOf ?E =
        [\<lparr>relativePath = ''proj/index.html'', dir = False, uncompressedSize = 2, content = ''hi''\<rparr>,
         \<lparr>relativePath = ''proj/css/a.css'', dir = False, uncompressedSize = 1, content = ''x''\<rparr>]"
    by code_simp
  then have p: "map relativePath (rawFilesOf ?E) = ?P" by simp
  have w: "wraps ''proj'' ?P" by (simp add: wraps_def startsWith_def)
  have u: "\<forall>d'. wraps d' ?P \<longrightarrow> d' = ''proj''"
  proof (intro allI impI)
    fix d' assume "wraps d' ?P"
    then have "startsWith ''proj/index.html'' (d' @ ''/'')" "startsWith ''proj/css/a.css'' (d' @ ''/'')"
      by (simp_all add: wraps_def)
    then obtain r1 r2 where "''proj/index.html'' = d' @ ''/'' @ r1" "''proj/css/a.css'' = d' @ ''/'' @ r2"
      by (auto simp: startsWith_prefix)
    then show "d' = ''proj''"
      by (auto simp: Cons_eq_append_conv)
  qed
  note T = common_root_removed [of ?E "''proj''"]
  from T have "wraps ''proj'' (map relativePath (rawFilesOf ?E))
      \<and> (\<forall>d'. wraps d' (map relativePath (rawFilesOf ?E)) \<longrightarrow> d' = ''proj'') \<longrightarrow>
      commonPrefix (map relativePath (rawFilesOf ?E)) = ''proj'' @ ''/''"
    by (rule conjunct1 [OF conjunct2 [OF conjunct2 [OF conjunct2 [OF conjunct2]]]])
  moreover have "wraps ''proj'' (map relativePath (rawFilesOf ?E))
      \<and> (\<forall>d'. wraps d' (map relativePath (rawFilesOf ?E)) \<longrightarrow> d' = ''proj'')"
    unfolding p using w u by (rule conjI)
  ultimately have "commonPrefix (map relativePath (rawFilesOf ?E)) = ''proj'' @ ''/''"
    by (rule mp)
  then have c: "commonPrefix (map relativePath (rawFilesOf ?E)) = ''proj/''"
    by simp
  from T have "map f_path (files (analyzeZip ?E))
     = filter (\<lambda>p. ignoreReason p = [])
         (map (\<lambda>raw. drop (length (commonPrefix (map relativePath (rawFilesOf ?E)))) (relativePath raw))
              (rawFilesOf ?E))"
    by (rule conjunct1)
  also have "\<dots> = filter (\<lambda>p. ignoreReason p = []) [''index.html'', ''css/a.css'']"
    unfolding raw using c [unfolded p] by simp
  also have "\<dots> = [''index.html'', ''css/a.css'']"
    by code_simp
  finally have f: "map f_path (files (analyzeZip ?E)) = [''index.html'', ''css/a.css'']" .
  have "map relativePath (rawFilesOf ?G) = [''foobar/x'', ''foo/x'']"
    by code_simp
  then have "''foobar/x'' \<in> set (map relativePath (rawFilesOf ?G))
      \<and> ''foo/x'' \<in> set (map relativePath (rawFilesOf ?G))"
    by simp
  with common_root_removed [of ?G] have g: "commonPrefix (map relativePath (rawFilesOf ?G)) \<noteq> ''foo/''"
    by blast
  from w p have w': "wraps ''proj'' (map relativePath (rawFilesOf ?E))" by simp
  have rn: "rawFilesOf ?N = ?N"
    by code_simp
  have "rawFilesOf ?N \<noteq> [] \<and> wraps ''proj'' (map relativePath (rawFilesOf ?N))"
    unfolding rn by (simp add: wraps_def startsWith_def)
  with common_root_removed [of ?N "''proj''"]
  have "startsWith (commonPrefix (map relativePath (rawFilesOf ?N))) (''proj'' @ ''/'')"
    by blast
  then have n: "startsWith (commonPrefix (map relativePath (rawFilesOf ?N))) ''proj/''"
    by simp
  from w' f n g show ?thesis by (intro conjI)
qed

text \<open>
  The claim as first stated fails: the folder \<open>proj\<close> wraps every entry of the archive
  below, and more than that folder is removed, since \<open>proj/src\<close> wraps every entry too:
  the kept files are \<open>a.js\<close> and \<open>b.js\<close>, not \<open>src/a.js\<close> and \<open>src/b.js\<close>.
\<close>

theorem common_root_removed_counterexample:
  "wraps ''proj''
     (map relativePath (rawFilesOf
        [\<lparr>relativePath = ''proj/src/a.js'', dir = False, uncompressedSize = 1, content = ''a''\<rparr>,
         \<lparr>relativePath = ''proj/src/b.js'', dir = False, uncompressedSize = 1, content = ''b''\<rparr>])) \<and>
   map f_path (files (analyzeZip
        [\<lparr>relativePath = ''proj/src/a.js'', dir = False, uncompressedSize = 1, content = ''a''\<rparr>,
         \<lparr>relativePath = ''proj/src/b.js'', dir = False, uncompressedSize = 1, content = ''b''\<rparr>]))
     = [''a.js'', ''b.js'']"
  by code_simp


section \<open>Warnings\<close>

lemma processFile_indexHtmlContent:
  "s_indexHtmlContent (processFile cp st raw) =
     (if ignoreReason (finalPathOf cp raw) = [] \<and> finalPathOf cp raw = ''index.html''
         \<and> uncompressedSize raw < 500 * 1024
      then content raw else s_indexHtmlContent st)"
  by (simp add: processFile_def Let_def noteIndexHtml_def)

lemma processFile_contentInv: "contentInv st \<Longrightarrow> contentInv (processFile cp st raw)"
  by (auto simp: contentInv_def processFile_files processFile_warnings processFile_indexHtmlContent
      keptFile_def absoluteHit_def capturedIndexHtml_def)

lemma scanZip_contentInv: "contentInv (scanZip entries)"
  unfolding scanZip_def Let_def
  by (rule foldl_invariant) (simp_all add: processFile_contentInv, simp add: contentInv_def initialScan_def capturedIndexHtml_def)

lemma missingWarning_inj: "missingWarning a = missingWarning b \<longleftrightarrow> a = b"
  by (simp add: missingWarning_def)

lemma missingWarning_neq:
  "missingWarning r \<noteq> absoluteWarning"
  "missingWarning r \<noteq> sourceWithBuildWarning"
  "missingWarning r \<noteq> sourceWarning"
  "missingWarning r \<noteq> noIndexWarning"
  "missingWarning r \<noteq> nestedIndexWarning p"
  by (simp_all add: missingWarning_def absoluteWarning_def sourceWithBuildWarning_def sourceWarning_def
      noIndexWarning_def nestedIndexWarning_def sq_def)

lemma absoluteWarning_neq:
  "absoluteWarning \<noteq> sourceWithBuildWarning"
  "absoluteWarning \<noteq> sourceWarning"
  "absoluteWarning \<noteq> noIndexWarning"
  "absoluteWarning \<noteq> nestedIndexWarning p"
  by (simp_all add: absoluteWarning_def sourceWithBuildWarning_def sourceWarning_def
      noIndexWarning_def nestedIndexWarning_def sq_def)

lemma checkRef_fold_set:
  "set (foldl (checkRef fs) ws refs) = set ws \<union> missingWarning ` set (missingRefs fs refs)"
  by (induction refs arbitrary: ws) (auto simp: checkRef_def Let_def missingRefs_def)

lemma checkRef_fold_distinct:
  "distinct ws \<Longrightarrow> distinct (foldl (checkRef fs) ws refs)"
  by (induction refs arbitrary: ws) (auto simp: checkRef_def Let_def)

lemma checkRef_fold_count:
  "(\<And>r. w \<noteq> missingWarning r) \<Longrightarrow> count_list (foldl (checkRef fs) ws refs) w = count_list ws w"
  by (induction refs arbitrary: ws) (auto simp: checkRef_def Let_def)


lemma classify_Unknown:
  "classify st = Unknown \<Longrightarrow> \<not> s_hasIndexHtml st \<and> \<not> s_hasPackageJson st"
  by (simp add: classify_def split: if_splits)

lemma finalWarnings_index:
  "s_hasIndexHtml st \<Longrightarrow>
   finalWarnings st pt =
     (if s_indexHtmlContent st \<noteq> []
      then foldl (checkRef (s_files st)) (s_warnings st) (matchAllRefs (s_indexHtmlContent st))
      else s_warnings st)"
  by (simp add: finalWarnings_def Let_def)

lemma finalWarnings_no_index:
  "\<not> s_hasIndexHtml st \<Longrightarrow>
   \<exists>extra. finalWarnings st pt = s_warnings st @ extra \<and>
     (extra = [] \<or> (\<exists>w. extra = [w] \<and>
        (w = sourceWithBuildWarning \<or> w = sourceWarning \<or> w = noIndexWarning \<or> (\<exists>p. w = nestedIndexWarning p))))"
  by (auto simp: finalWarnings_def Let_def split: option.splits)

lemma finalWarnings_distinct:
  assumes "contentInv st"
  shows "distinct (finalWarnings st pt)"
proof (cases "s_hasIndexHtml st")
  case True
  from assms have "distinct (s_warnings st)" by (simp add: contentInv_def)
  with True show ?thesis by (simp add: finalWarnings_index checkRef_fold_distinct)
next
  case False
  from finalWarnings_no_index [OF False, of pt] assms show ?thesis
    by (auto simp: contentInv_def absoluteWarning_neq absoluteWarning_neq [symmetric])
qed

lemma finalWarnings_count:
  assumes "contentInv st"
  shows "count_list (finalWarnings st pt) absoluteWarning = (if list_ex absoluteHit (s_files st) then 1 else 0)"
proof (cases "s_hasIndexHtml st")
  case True
  have n: "\<And>r. absoluteWarning \<noteq> missingWarning r"
    using missingWarning_neq(1) by metis
  from assms True show ?thesis
    by (simp add: finalWarnings_index checkRef_fold_count [OF n] contentInv_def)
next
  case False
  from finalWarnings_no_index [OF False, of pt] assms show ?thesis
    by (auto simp: contentInv_def absoluteWarning_neq absoluteWarning_neq [symmetric])
qed

lemma finalWarnings_missing:
  assumes "contentInv st"
  shows "missingWarning r \<in> set (finalWarnings st pt) \<longleftrightarrow>
     s_hasIndexHtml st \<and> s_indexHtmlContent st \<noteq> [] \<and>
     r \<in> set (missingRefs (s_files st) (matchAllRefs (s_indexHtmlContent st)))"
proof (cases "s_hasIndexHtml st")
  case True
  from assms have w: "set (s_warnings st) \<subseteq> {absoluteWarning}" by (auto simp: contentInv_def)
  have "missingWarning r \<notin> set (s_warnings st)"
    using w missingWarning_neq(1) by blast
  with True show ?thesis
    by (auto simp: finalWarnings_index checkRef_fold_set missingWarning_inj)
next
  case False
  from assms have w: "set (s_warnings st) \<subseteq> {absoluteWarning}" by (auto simp: contentInv_def)
  have "missingWarning r \<notin> set (s_warnings st)"
    using w missingWarning_neq(1) by blast
  with finalWarnings_no_index [OF False, of pt] False show ?thesis
    by (auto simp: missingWarning_neq missingWarning_neq [symmetric])
qed

lemma fixAbsolutePaths_iter_distinct:
  "distinct (warnings a) \<Longrightarrow> distinct (warnings ((fixAbsolutePaths ^^ n) a))"
  by (induction n) (simp_all add: fixAbsolutePaths_def)

lemma analyzeZip_warnings: "warnings (analyzeZip entries) = finalWarnings (scanZip entries) (classify (scanZip entries))"
  by (simp add: analyzeZip_def Let_def)

lemma analyzeZip_files: "files (analyzeZip entries) = s_files (scanZip entries)"
  by (simp add: analyzeZip_def Let_def)

text \<open>
  Claim C8. The warnings of every analysis are free of duplicates: those that \<open>analyzeZip\<close>
  returns, and those after any number of applications of \<open>fixAbsolutePaths\<close>. The
  absolute-path warning occurs exactly once when some kept HTML, CSS or JS file under 1 MB
  holds a root-absolute reference, however many such files there are, and not at all
  otherwise.
\<close>

theorem warnings_deduplicated:
  "distinct (warnings (analyzeZip entries)) \<and>
   distinct (warnings ((fixAbsolutePaths ^^ n) (analyzeZip entries))) \<and>
   count_list (warnings (analyzeZip entries)) absoluteWarning =
     (if list_ex absoluteHit (files (analyzeZip entries)) then 1 else 0)"
proof -
  have d: "distinct (warnings (analyzeZip entries))"
    unfolding analyzeZip_warnings by (rule finalWarnings_distinct [OF scanZip_contentInv])
  moreover from d have "distinct (warnings ((fixAbsolutePaths ^^ n) (analyzeZip entries)))"
    by (rule fixAbsolutePaths_iter_distinct)
  moreover have "count_list (warnings (analyzeZip entries)) absoluteWarning =
     (if list_ex absoluteHit (files (analyzeZip entries)) then 1 else 0)"
    unfolding analyzeZip_warnings analyzeZip_files by (rule finalWarnings_count [OF scanZip_contentInv])
  ultimately show ?thesis by blast
qed

theorem warnings_deduplicated_witness:
  "list_ex absoluteHit (files (analyzeZip
     [\<lparr>relativePath = ''a.html'', dir = False, uncompressedSize = 9, content = ''src='' @ [dq] @ ''/x'' @ [dq]\<rparr>,
      \<lparr>relativePath = ''b.css'', dir = False, uncompressedSize = 9, content = ''src='' @ [dq] @ ''/x'' @ [dq]\<rparr>,
      \<lparr>relativePath = ''c.js'', dir = False, uncompressedSize = 9, content = ''src='' @ [dq] @ ''/x'' @ [dq]\<rparr>])) \<and>
   count_list (warnings (analyzeZip
     [\<lparr>relativePath = ''a.html'', dir = False, uncompressedSize = 9, content = ''src='' @ [dq] @ ''/x'' @ [dq]\<rparr>,
      \<lparr>relativePath = ''b.css'', dir = False, uncompressedSize = 9, content = ''src='' @ [dq] @ ''/x'' @ [dq]\<rparr>,
      \<lparr>relativePath = ''c.js'', dir = False, uncompressedSize = 9, content = ''src='' @ [dq] @ ''/x'' @ [dq]\<rparr>]))
     absoluteWarning = 1"
proof -
  let ?E = "[\<lparr>relativePath = ''a.html'', dir = False, uncompressedSize = 9, content = ''src='' @ [dq] @ ''/x'' @ [dq]\<rparr>,
      \<lparr>relativePath = ''b.css'', dir = False, uncompressedSize = 9, content = ''src='' @ [dq] @ ''/x'' @ [dq]\<rparr>,
      \<lparr>relativePath = ''c.js'', dir = False, uncompressedSize = 9, content = ''src='' @ [dq] @ ''/x'' @ [dq]\<rparr>]"
  have h: "list_ex absoluteHit (files (analyzeZip ?E))"
    by code_simp
  have "count_list (warnings (analyzeZip ?E)) absoluteWarning =
     (if list_ex absoluteHit (files (analyzeZip ?E)) then 1 else 0)"
    by (rule conjunct2 [OF conjunct2 [OF warnings_deduplicated [of ?E 0]]])
  with h have "count_list (warnings (analyzeZip ?E)) absoluteWarning = 1"
    by (simp only: if_True)
  with h show ?thesis by (rule conjI)
qed

text \<open>
  Claim C9, as amended. A warning naming \<open>r\<close> is raised exactly when a root \<open>index.html\<close>
  was kept and its captured content (under 500 KB, not empty) holds a \<open>src=\<close> or \<open>href=\<close>
  reference that does not start with \<open>http\<close>, \<open>//\<close>, \<open>#\<close> or \<open>/\<close>, that normalizes to
  \<open>r\<close> (query and fragment cut off, one leading \<open>./\<close> removed), and no kept file has the
  path \<open>r\<close>.
\<close>

theorem missing_asset_scan:
  "missingWarning r \<in> set (warnings (analyzeZip entries)) \<longleftrightarrow>
     hasPath (\<lambda>p. p = ''index.html'') (files (analyzeZip entries)) \<and>
     capturedIndexHtml (files (analyzeZip entries)) \<noteq> [] \<and>
     list_ex (\<lambda>ref. \<not> skippedRef ref \<and> normalizeRef ref = r
                \<and> \<not> hasPath (\<lambda>p. p = r) (files (analyzeZip entries)))
       (matchAllRefs (capturedIndexHtml (files (analyzeZip entries))))"
proof -
  let ?st = "scanZip entries"
  have c: "contentInv ?st" by (rule scanZip_contentInv)
  have f: "flagsInv ?st" by (rule scanZip_flagsInv)
  from c have i: "s_indexHtmlContent ?st = capturedIndexHtml (s_files ?st)" by (simp add: contentInv_def)
  from f have h: "s_hasIndexHtml ?st = hasPath (\<lambda>p. p = ''index.html'') (s_files ?st)"
    by (simp add: flagsInv_def hasPath_def)
  show ?thesis
    unfolding analyzeZip_warnings analyzeZip_files finalWarnings_missing [OF c] i h
    by (auto simp: missingRefs_def list_ex_iff hasPath_def)
qed


theorem missing_asset_scan_witness:
  "missingWarning ''css/app.css'' \<in> set (warnings (analyzeZip
     [\<lparr>relativePath = ''index.html'', dir = False, uncompressedSize = 52,
       content = ''href='' @ [dq] @ ''css/app.css'' @ [dq] @ '' src='' @ [dq] @ ''https://cdn.example/x.js'' @ [dq]\<rparr>])) \<and>
   missingWarning ''https://cdn.example/x.js'' \<notin> set (warnings (analyzeZip
     [\<lparr>relativePath = ''index.html'', dir = False, uncompressedSize = 52,
       content = ''href='' @ [dq] @ ''css/app.css'' @ [dq] @ '' src='' @ [dq] @ ''https://cdn.example/x.js'' @ [dq]\<rparr>]))"
proof -
  let ?E = "[\<lparr>relativePath = ''index.html'', dir = False, uncompressedSize = 52,
       content = ''href='' @ [dq] @ ''css/app.css'' @ [dq] @ '' src='' @ [dq] @ ''https://cdn.example/x.js'' @ [dq]\<rparr>]"
  let ?R = "\<lambda>r. hasPath (\<lambda>p. p = ''index.html'') (files (analyzeZip ?E)) \<and>
     capturedIndexHtml (files (analyzeZip ?E)) \<noteq> [] \<and>
     list_ex (\<lambda>ref. \<not> skippedRef ref \<and> normalizeRef ref = r
                \<and> \<not> hasPath (\<lambda>p. p = r) (files (analyzeZip ?E)))
       (matchAllRefs (capturedIndexHtml (files (analyzeZip ?E))))"
  have y: "?R ''css/app.css''"
    by code_simp
  have n: "\<not> ?R ''https://cdn.example/x.js''"
    by code_simp
  from y have 1: "missingWarning ''css/app.css'' \<in> set (warnings (analyzeZip ?E))"
    by (rule iffD2 [OF missing_asset_scan])
  have 2: "missingWarning ''https://cdn.example/x.js'' \<notin> set (warnings (analyzeZip ?E))"
  proof
    assume "missingWarning ''https://cdn.example/x.js'' \<in> set (warnings (analyzeZip ?E))"
    then have "?R ''https://cdn.example/x.js''"
      by (rule iffD1 [OF missing_asset_scan])
    with n show False ..
  qed
  from 1 2 show ?thesis by (rule conjI)
qed

text \<open>
  The claim as first stated fails: \<open>mailto:a@b.c\<close> is an absolute URL and is reported as
  a missing asset, and the relative reference \<open>http-client.js\<close>, which no kept file
  provides, is passed over because it starts with \<open>http\<close>.
\<close>

theorem missing_asset_scan_counterexample:
  "warnings (analyzeZip
     [\<lparr>relativePath = ''index.html'', dir = False, uncompressedSize = 41,
       content = ''href='' @ [dq] @ ''mailto:a@b.c'' @ [dq] @ '' src='' @ [dq] @ ''http-client.js'' @ [dq]\<rparr>])
   = [missingWarning ''mailto:a@b.c'']"
  by code_simp


section \<open>Total size\<close>

text \<open>The analysis that \<open>analyzeZip\<close> returns has the sum of the kept sizes as its total.\<close>

lemma analyzeZip_totalSize:
  "totalSize (analyzeZip entries) = sum_list (map f_size (files (analyzeZip entries)))"
  using scanZip_flagsInv [of entries] by (simp add: analyzeZip_def Let_def flagsInv_def)

text \<open>
  Claim C7 fails on the code for \<open>fixAbsolutePaths\<close>: it updates the size of a rewritten
  file and copies \<open>totalSize\<close> unchanged. One file of 29 bytes with one root-absolute
  reference is rewritten to 30 characters; the total stays 29.
\<close>

theorem fixAbsolutePaths_stale_totalSize:
  "totalSize (fixAbsolutePaths (analyzeZip
     [\<lparr>relativePath = ''index.html'', dir = False, uncompressedSize = 29,
       content = ''<script src='' @ [dq] @ ''/a.js'' @ [dq] @ ''></script>''\<rparr>])) = 29 \<and>
   sum_list (map f_size (files (fixAbsolutePaths (analyzeZip
     [\<lparr>relativePath = ''index.html'', dir = False, uncompressedSize = 29,
       content = ''<script src='' @ [dq] @ ''/a.js'' @ [dq] @ ''></script>''\<rparr>])))) = 30"
  by code_simp


section \<open>Deployment: the uploads of a batch\<close>

text \<open>
  Whatever the order of arrival: a batch performs only actions of its uploads, it fails
  exactly when one of them does, the upload that rejects it has performed all its
  actions, and no action is performed more often than the uploads perform it.
\<close>

lemma settle_empty: "settle arrival [] = ([], Inr [])"
  by (subst settle.simps) simp

lemma settle_resume:
  assumes "pending \<noteq> []" "pending ! resumed arrival (length pending) = (a # as, r)"
  shows "settle arrival pending =
     (a # fst (settle (tl arrival) (pending[resumed arrival (length pending) := (as, r)])),
      snd (settle (tl arrival) (pending[resumed arrival (length pending) := (as, r)])))"
  using assms by (subst settle.simps) (simp add: Let_def)

lemma settle_reject:
  assumes "pending \<noteq> []" "pending ! resumed arrival (length pending) = ([], Inl e)"
  shows "settle arrival pending = ([], Inl e)"
  using assms by (subst settle.simps) (simp add: Let_def)

lemma settle_fulfil:
  assumes "pending \<noteq> []" "pending ! resumed arrival (length pending) = ([], Inr v)"
  shows "settle arrival pending =
     (fst (settle (tl arrival) (take (resumed arrival (length pending)) pending
                               @ drop (Suc (resumed arrival (length pending))) pending)),
      case snd (settle (tl arrival) (take (resumed arrival (length pending)) pending
                                    @ drop (Suc (resumed arrival (length pending))) pending)) of
        Inl e \<Rightarrow> Inl e
      | Inr vs \<Rightarrow> Inr (v # vs))"
  using assms by (subst settle.simps) (simp add: Let_def)

lemma settle_cases [consumes 1, case_names resume reject fulfil]:
  assumes "pending \<noteq> []"
  obtains a as r where "pending ! resumed arrival (length pending) = (a # as, r)"
  | e where "pending ! resumed arrival (length pending) = ([], Inl e)"
  | v where "pending ! resumed arrival (length pending) = ([], Inr v)"
proof (cases "pending ! resumed arrival (length pending)")
  case (Pair as r)
  then show ?thesis using that by (cases as; cases r) auto
qed

lemma removed_subset: "set (take k ps @ drop (Suc k) ps) \<subseteq> set ps"
  using set_take_subset [of k ps] set_drop_subset [of "Suc k" ps] by auto

lemma settle_actions:
  "a \<in> set (fst (settle arrival pending)) \<Longrightarrow> \<exists>p \<in> set pending. a \<in> set (fst p)"
proof (induction "pendingWork pending" arbitrary: arrival pending a rule: less_induct)
  case less
  show ?case
  proof (cases "pending = []")
    case True
    with less.prems show ?thesis by (simp add: settle_empty)
  next
    case False
    let ?k = "resumed arrival (length pending)"
    from False have k: "?k < length pending" by (rule resumed_less)
    from False show ?thesis
    proof (cases rule: settle_cases [where arrival = arrival])
      case (resume b as r)
      from k resume have m: "(b # as, r) \<in> set pending" by (metis nth_mem)
      from less.prems have "a = b \<or> a \<in> set (fst (settle (tl arrival) (pending[?k := (as, r)])))"
        by (simp add: settle_resume [OF False resume])
      then show ?thesis
      proof
        assume "a = b"
        with m show ?thesis by force
      next
        assume "a \<in> set (fst (settle (tl arrival) (pending[?k := (as, r)])))"
        from less.hyps [OF pendingWork_resume [OF k resume [symmetric]] this]
        obtain p where p: "p \<in> set (pending[?k := (as, r)])" "a \<in> set (fst p)" by blast
        from p(1) have "p = (as, r) \<or> p \<in> set pending"
          using set_update_subset_insert [of pending ?k "(as, r)"] by auto
        with p(2) m show ?thesis by force
      qed
    next
      case (reject e)
      with less.prems show ?thesis by (simp add: settle_reject [OF False reject])
    next
      case (fulfil v)
      from less.prems have "a \<in> set (fst (settle (tl arrival) (take ?k pending @ drop (Suc ?k) pending)))"
        by (simp add: settle_fulfil [OF False fulfil])
      from less.hyps [OF pendingWork_settle [OF k] this] removed_subset [of ?k pending]
      show ?thesis by blast
    qed
  qed
qed

lemma settle_rejected:
  "snd (settle arrival pending) = Inl e
   \<Longrightarrow> \<exists>p \<in> set pending. snd p = Inl e \<and> set (fst p) \<subseteq> set (fst (settle arrival pending))"
proof (induction "pendingWork pending" arbitrary: arrival pending rule: less_induct)
  case less
  show ?case
  proof (cases "pending = []")
    case True
    with less.prems show ?thesis by (simp add: settle_empty)
  next
    case False
    let ?k = "resumed arrival (length pending)"
    from False have k: "?k < length pending" by (rule resumed_less)
    from False show ?thesis
    proof (cases rule: settle_cases [where arrival = arrival])
      case (resume b as r)
      from k resume have m: "(b # as, r) \<in> set pending" by (metis nth_mem)
      note s = settle_resume [OF False resume]
      from less.prems have "snd (settle (tl arrival) (pending[?k := (as, r)])) = Inl e"
        by (simp add: s)
      from less.hyps [OF pendingWork_resume [OF k resume [symmetric]] this]
      obtain p where p: "p \<in> set (pending[?k := (as, r)])" "snd p = Inl e"
        "set (fst p) \<subseteq> set (fst (settle (tl arrival) (pending[?k := (as, r)])))" by blast
      from p(1) have "p = (as, r) \<or> p \<in> set pending"
        using set_update_subset_insert [of pending ?k "(as, r)"] by auto
      then show ?thesis
      proof
        assume "p = (as, r)"
        with p(2,3) have "snd (b # as, r) = Inl e \<and> set (fst (b # as, r)) \<subseteq> set (fst (settle arrival pending))"
          by (auto simp: s)
        with m show ?thesis by blast
      next
        assume "p \<in> set pending"
        moreover from p(3) have "set (fst p) \<subseteq> set (fst (settle arrival pending))"
          by (auto simp: s)
        ultimately show ?thesis using p(2) by blast
      qed
    next
      case (reject e')
      from k reject have "([], Inl e') \<in> set pending" by (metis nth_mem)
      with less.prems show ?thesis by (force simp: settle_reject [OF False reject])
    next
      case (fulfil v)
      note s = settle_fulfil [OF False fulfil]
      from less.prems have "snd (settle (tl arrival) (take ?k pending @ drop (Suc ?k) pending)) = Inl e"
        by (simp add: s split: sum.splits)
      from less.hyps [OF pendingWork_settle [OF k] this] removed_subset [of ?k pending]
      show ?thesis by (auto simp: s)
    qed
  qed
qed

lemma settle_fulfilled:
  "snd (settle arrival pending) = Inr vs \<Longrightarrow> p \<in> set pending \<Longrightarrow> \<not> isl (snd p)"
proof (induction "pendingWork pending" arbitrary: arrival pending vs p rule: less_induct)
  case less
  from less.prems(2) have False: "pending \<noteq> []" by auto
  let ?k = "resumed arrival (length pending)"
  from False have k: "?k < length pending" by (rule resumed_less)
  from less.prems(2) obtain j where j: "j < length pending" "pending ! j = p"
    by (auto simp: in_set_conv_nth)
  from False show ?case
  proof (cases rule: settle_cases [where arrival = arrival])
    case (resume b as r)
    note s = settle_resume [OF False resume]
    from less.prems(1) have r: "snd (settle (tl arrival) (pending[?k := (as, r)])) = Inr vs"
      by (simp add: s)
    note ih = less.hyps [OF pendingWork_resume [OF k resume [symmetric]] r]
    show ?thesis
    proof (cases "j = ?k")
      case True
      from k have "(as, r) \<in> set (pending[?k := (as, r)])" by (simp add: set_update_memI)
      from ih [OF this] have "\<not> isl r" by simp
      moreover from True j resume have "snd p = r" by auto
      ultimately show ?thesis by simp
    next
      case False
      with j k have "p \<in> set (pending[?k := (as, r)])"
        by (metis length_list_update nth_list_update_neq nth_mem)
      from ih [OF this] show ?thesis .
    qed
  next
    case (reject e)
    with less.prems(1) show ?thesis by (simp add: settle_reject [OF False reject])
  next
    case (fulfil v)
    note s = settle_fulfil [OF False fulfil]
    from less.prems(1) obtain vs' where
      r: "snd (settle (tl arrival) (take ?k pending @ drop (Suc ?k) pending)) = Inr vs'"
      by (auto simp: s split: sum.splits)
    note ih = less.hyps [OF pendingWork_settle [OF k] r]
    from id_take_nth_drop [OF k] less.prems(2)
    have "p \<in> set (take ?k pending @ pending ! ?k # drop (Suc ?k) pending)" by simp
    then have "p = pending ! ?k \<or> p \<in> set (take ?k pending @ drop (Suc ?k) pending)" by auto
    then show ?thesis
    proof
      assume "p = pending ! ?k"
      with fulfil show ?thesis by simp
    next
      assume "p \<in> set (take ?k pending @ drop (Suc ?k) pending)"
      from ih [OF this] show ?thesis .
    qed
  qed
qed

lemma settle_count:
  "length (filter P (fst (settle arrival pending)))
     \<le> sum_list (map (\<lambda>p. length (filter P (fst p))) pending)"
proof (induction "pendingWork pending" arbitrary: arrival pending rule: less_induct)
  case less
  let ?f = "\<lambda>p. length (filter P (fst p))"
  show ?case
  proof (cases "pending = []")
    case True
    then show ?thesis by (simp add: settle_empty)
  next
    case False
    let ?k = "resumed arrival (length pending)"
    from False have k: "?k < length pending" by (rule resumed_less)
    from id_take_nth_drop [OF k]
    have "sum_list (map ?f pending) = sum_list (map ?f (take ?k pending @ pending ! ?k # drop (Suc ?k) pending))"
      by (rule arg_cong)
    then have whole: "sum_list (map ?f pending)
        = sum_list (map ?f (take ?k pending)) + ?f (pending ! ?k) + sum_list (map ?f (drop (Suc ?k) pending))"
      by simp
    from False show ?thesis
    proof (cases rule: settle_cases [where arrival = arrival])
      case (resume b as r)
      have "sum_list (map ?f (pending[?k := (as, r)]))
          = sum_list (map ?f (take ?k pending)) + ?f (as, r) + sum_list (map ?f (drop (Suc ?k) pending))"
        unfolding upd_conv_take_nth_drop [OF k] by simp
      with less.hyps [OF pendingWork_resume [OF k resume [symmetric]], of "tl arrival"] whole resume
      show ?thesis by (simp add: settle_resume [OF False resume])
    next
      case (reject e)
      then show ?thesis by (simp add: settle_reject [OF False reject])
    next
      case (fulfil v)
      have "sum_list (map ?f (take ?k pending @ drop (Suc ?k) pending))
          = sum_list (map ?f (take ?k pending)) + sum_list (map ?f (drop (Suc ?k) pending))"
        by simp
      with less.hyps [OF pendingWork_settle [OF k], of "tl arrival"] whole
      show ?thesis by (simp add: settle_fulfil [OF False fulfil])
    qed
  qed
qed

lemma promiseAll_actions:
  assumes "a \<in> set (fst (promiseAll arrival ms))"
  shows "\<exists>m \<in> set ms. a \<in> set (fst m)"
proof -
  from assms have "a \<in> set (concat (map (\<lambda>m. take 1 (fst m)) ms))
      \<or> a \<in> set (fst (settle arrival (map (\<lambda>m. (drop 1 (fst m), snd m)) ms)))"
    by (simp add: promiseAll_def)
  then show ?thesis
  proof
    assume "a \<in> set (concat (map (\<lambda>m. take 1 (fst m)) ms))"
    then obtain m where "m \<in> set ms" "a \<in> set (take 1 (fst m))" by auto
    then show ?thesis using set_take_subset [of 1 "fst m"] by blast
  next
    assume "a \<in> set (fst (settle arrival (map (\<lambda>m. (drop 1 (fst m), snd m)) ms)))"
    from settle_actions [OF this] obtain m where "m \<in> set ms" "a \<in> set (drop 1 (fst m))" by auto
    then show ?thesis using set_drop_subset [of 1 "fst m"] by blast
  qed
qed

lemma promiseAll_rejected:
  assumes "snd (promiseAll arrival ms) = Inl e"
  shows "\<exists>m \<in> set ms. snd m = Inl e \<and> set (fst m) \<subseteq> set (fst (promiseAll arrival ms))"
proof -
  let ?ps = "map (\<lambda>m. (drop 1 (fst m), snd m)) ms"
  from assms have "snd (settle arrival ?ps) = Inl e" by (simp add: promiseAll_def)
  from settle_rejected [OF this] obtain m where m: "m \<in> set ms" "snd m = Inl e"
    "set (drop 1 (fst m)) \<subseteq> set (fst (settle arrival ?ps))" by auto
  from m(1) have "set (take 1 (fst m)) \<subseteq> set (concat (map (\<lambda>m. take 1 (fst m)) ms))" by auto
  moreover have "set (fst m) = set (take 1 (fst m)) \<union> set (drop 1 (fst m))"
    by (metis append_take_drop_id set_append)
  ultimately have "set (fst m) \<subseteq> set (fst (promiseAll arrival ms))"
    using m(3) by (auto simp: promiseAll_def)
  with m(1,2) show ?thesis by blast
qed

lemma failed_promiseAll: "failed (promiseAll arrival ms) = (\<exists>m \<in> set ms. failed m)"
proof (cases "snd (promiseAll arrival ms)")
  case (Inl e)
  from promiseAll_rejected [OF Inl] obtain m where "m \<in> set ms" "snd m = Inl e" by blast
  then have "\<exists>m \<in> set ms. failed m" by (force simp: failed_def)
  with Inl show ?thesis by (simp add: failed_def)
next
  case (Inr vs)
  let ?ps = "map (\<lambda>m. (drop 1 (fst m), snd m)) ms"
  from Inr have "snd (settle arrival ?ps) = Inr vs" by (simp add: promiseAll_def)
  from settle_fulfilled [OF this] have "\<not> isl (snd m)" if "m \<in> set ms" for m
    using that by force
  with Inr show ?thesis by (auto simp: failed_def)
qed

lemma promiseAll_count:
  "length (filter P (fst (promiseAll arrival ms)))
     \<le> sum_list (map (\<lambda>m. length (filter P (fst m))) ms)"
proof -
  let ?ps = "map (\<lambda>m. (drop 1 (fst m), snd m)) ms"
  have h: "length (filter P (concat (map (\<lambda>m. take 1 (fst m)) ms)))
      = sum_list (map (\<lambda>m. length (filter P (take 1 (fst m)))) ms)"
    by (induction ms) simp_all
  have "sum_list (map (\<lambda>p. length (filter P (fst p))) ?ps)
      = sum_list (map (\<lambda>m. length (filter P (drop 1 (fst m)))) ms)"
    by (simp add: comp_def del: One_nat_def)
  with settle_count [of P arrival ?ps]
  have "length (filter P (fst (promiseAll arrival ms)))
      \<le> sum_list (map (\<lambda>m. length (filter P (take 1 (fst m)))) ms)
        + sum_list (map (\<lambda>m. length (filter P (drop 1 (fst m)))) ms)"
    by (simp add: promiseAll_def h del: One_nat_def)
  also have "\<dots> = sum_list (map (\<lambda>m. length (filter P (take 1 (fst m))) + length (filter P (drop 1 (fst m)))) ms)"
    by (simp add: sum_list_addf)
  also have "\<dots> = sum_list (map (\<lambda>m. length (filter P (fst m))) ms)"
  proof -
    have "length (filter P (take 1 xs)) + length (filter P (drop 1 xs)) = length (filter P xs)" for xs :: "action list"
      by (metis append_take_drop_id filter_append length_append)
    then show ?thesis by simp
  qed
  finally show ?thesis .
qed

lemma promiseAll_starts:
  assumes "\<And>m. m \<in> set ms \<Longrightarrow> fst m \<noteq> []"
  shows "take (length ms) (fst (promiseAll arrival ms)) = map (\<lambda>m. hd (fst m)) ms"
proof -
  from assms have "concat (map (\<lambda>m. take 1 (fst m)) ms) = map (\<lambda>m. hd (fst m)) ms"
  proof (induction ms)
    case Nil
    show ?case by simp
  next
    case (Cons m ms)
    from Cons.prems [of m] have "take 1 (fst m) = [hd (fst m)]" by (cases "fst m") simp_all
    with Cons show ?case by simp
  qed
  then show ?thesis by (simp add: promiseAll_def)
qed

text \<open>
  Two examples of the model: the rounding of the progress, where the exact quotient
  57.5 would round to 58, and two uploads of one batch of which the second is answered
  first and fails once.
\<close>

lemma percent_example: "percent 115 200 = 57 \<and> percent 5 200 = 3 \<and> percent 200 200 = 100"
  by code_simp

lemma promiseAll_example:
  "promiseAll [1, 1, 1, 0]
     [([Call (CreateBlob 0 0)], Inr ''a''),
      ([Call (CreateBlob 1 0), Delay 1000, Call (CreateBlob 1 1)], Inr ''b'')]
   = ([Call (CreateBlob 0 0), Call (CreateBlob 1 0), Delay 1000, Call (CreateBlob 1 1)],
      Inr [''b'', ''a''])"
  by code_simp


section \<open>Deployment: the error event\<close>

lemma events_simps:
  "events (ret x) = []"
  "events (throw e) = []"
  "events (call r a) = []"
  "events (delay n) = []"
  "events (emit st :: unit run) = [st]"
  by (simp_all add: events_def statuses_def ret_def throw_def call_def delay_def emit_def)

lemma events_bind:
  "events (bind m f) = (case snd m of Inl e \<Rightarrow> events m | Inr x \<Rightarrow> events m @ events (f x))"
  by (simp add: events_def statuses_def bind_def split: sum.splits)

lemma events_catch:
  "events (catch m h) = (case snd m of Inl e \<Rightarrow> events m @ events (h e) | Inr x \<Rightarrow> events m)"
  by (simp add: events_def statuses_def catch_def split: sum.splits)

lemma quiet_basic [intro!, simp]:
  "quiet (ret x)"
  "quiet (throw e)"
  "quiet (call r a)"
  "quiet (delay n)"
  "quiet (emit (info s))"
  "quiet (emit (success s))"
  "quiet (emit (uploaded n tot))"
  by (simp_all add: quiet_def errorEvents_def events_simps info_def success_def uploaded_def)

lemma quiet_emit: "kind st \<noteq> TError \<Longrightarrow> quiet (emit st)"
  by (simp add: quiet_def errorEvents_def events_simps)

lemma quiet_bind [intro!]: "quiet m \<Longrightarrow> (\<And>x. quiet (f x)) \<Longrightarrow> quiet (bind m f)"
  by (auto simp: quiet_def errorEvents_def events_bind split: sum.splits)

lemma quiet_catch [intro!]: "quiet m \<Longrightarrow> (\<And>e. quiet (h e)) \<Longrightarrow> quiet (catch m h)"
  by (auto simp: quiet_def errorEvents_def events_catch split: sum.splits)

lemma quiet_json [intro!, simp]: "quiet ([], x)"
  by (simp add: quiet_def errorEvents_def events_def statuses_def)

lemma statuses_set: "st \<in> set (statuses as) \<longleftrightarrow> Emit st \<in> set as"
  by (induction as) (auto simp: statuses_def split: action.splits)

lemma quiet_iff: "quiet m \<longleftrightarrow> (\<forall>st. Emit st \<in> set (fst m) \<longrightarrow> kind st \<noteq> TError)"
  by (auto simp: quiet_def errorEvents_def events_def filter_empty_conv statuses_set)

lemma quiet_promiseAll:
  assumes "\<And>m. m \<in> set ms \<Longrightarrow> quiet m"
  shows "quiet (promiseAll arrival ms)"
  unfolding quiet_iff
proof (intro allI impI)
  fix st
  assume "Emit st \<in> set (fst (promiseAll arrival ms))"
  from promiseAll_actions [OF this] obtain m where "m \<in> set ms" "Emit st \<in> set (fst m)" by blast
  with assms show "kind st \<noteq> TError" unfolding quiet_iff by blast
qed

lemma quiet_uploadWithRetry [intro!, simp]: "quiet (uploadWithRetry gh k r)"
  by (induction r) auto

lemma quiet_uploadOne [intro!, simp]: "quiet (uploadOne gh fs k)"
  unfolding uploadOne_def by auto

lemma quiet_uploadBatch [intro!, simp]: "quiet (uploadBatch gh fs i)"
  unfolding uploadBatch_def by (auto intro!: quiet_promiseAll)

lemma quiet_uploadBlobs [intro!, simp]: "quiet (uploadBlobs gh fs i items)"
proof (induction gh fs i items rule: uploadBlobs.induct)
  case (1 gh fs i items)
  show ?case
    by (subst uploadBlobs.simps) (auto intro: "1.IH")
qed

lemma quiet_phases [intro!, simp]:
  "quiet (createOrGetRepository gh repoName)"
  "quiet (prepare analysis patches customDomain)"
  "quiet (readHead gh)"
  "quiet (enablePages gh owner repoName)"
  by (auto simp: createOrGetRepository_def prepare_def readHead_def enablePages_def Let_def)

lemma quiet_gitHubBody: "quiet (gitHubBody gh repoName analysis customDomain patches)"
  unfolding gitHubBody_def by (auto intro!: quiet_emit)

lemma quiet_throwFailed [intro!, simp]: "quiet (throwFailed what res)"
  unfolding throwFailed_def by auto

lemma quiet_uploadHash [intro!, simp]: "quiet (uploadHash fb hs k)"
  unfolding uploadHash_def by auto

lemma quiet_named [intro!, simp]: "quiet (named name)"
  unfolding named_def by (cases name) auto

lemma quiet_uploadRequired [intro!, simp]: "quiet (uploadRequired fb hs i)"
proof (induction fb hs i rule: uploadRequired.induct)
  case (1 fb hs i)
  show ?case
    by (subst uploadRequired.simps) (auto intro: "1.IH" intro!: quiet_promiseAll)
qed

lemma quiet_fetch [intro!, simp]:
  "quiet (fetchJson r a what)"
  "quiet (fetchOk r b what)"
  unfolding fetchJson_def fetchOk_def by (auto split: prod.splits)

lemma quiet_newVersion [intro!, simp]: "quiet (newVersion fb)"
  unfolding newVersion_def by auto

lemma quiet_firebaseBody: "quiet (firebaseBody fb siteId analysis)"
  unfolding firebaseBody_def by (auto intro!: quiet_emit)


lemma statuses_append: "statuses (xs @ ys) = statuses xs @ statuses ys"
  by (simp add: statuses_def)

lemma reportFailure_ok: "snd body = Inr x \<Longrightarrow> reportFailure body = body"
  by (simp add: reportFailure_def catch_def)

lemma reportFailure_failed:
  "snd body = Inl e \<Longrightarrow> reportFailure body = (fst body @ [Emit (failedStatus e)], Inl e)"
  by (simp add: reportFailure_def catch_def bind_def emit_def throw_def)

lemma errorContract_reportFailure:
  assumes "quiet body"
  shows "errorContract (reportFailure body)"
proof (cases "snd body")
  case (Inl e)
  have k: "kind (failedStatus e) = TError" by (simp add: failedStatus_def)
  from assms have q: "filter (\<lambda>st. kind st = TError) (statuses (fst body)) = []"
    by (simp add: quiet_def errorEvents_def events_def)
  from q k have "errorEvents (reportFailure body) = [failedStatus e]"
    by (simp add: reportFailure_failed [OF Inl] errorEvents_def events_def statuses_append statuses_def)
  with q show ?thesis
    by (simp add: errorContract_def failed_def reportFailure_failed [OF Inl])
next
  case (Inr x)
  with assms show ?thesis
    by (simp add: errorContract_def failed_def reportFailure_ok [OF Inr] quiet_def)
qed

lemma snd_simps [simp]:
  "snd (ret x) = Inr x"
  "snd (throw e) = Inl e"
  "snd (emit st) = Inr ()"
  "snd (call r a) = a"
  "snd (delay n) = Inr ()"
  by (simp_all add: ret_def throw_def emit_def call_def delay_def)

lemma fst_simps [simp]:
  "fst (ret x) = []"
  "fst (throw e) = []"
  "fst (emit st) = [Emit st]"
  "fst (call r a) = [Call r]"
  "fst (delay n) = [Delay n]"
  by (simp_all add: ret_def throw_def emit_def call_def delay_def)

lemma snd_bind: "snd (bind m f) = (case snd m of Inl e \<Rightarrow> Inl e | Inr x \<Rightarrow> snd (f x))"
  by (simp add: bind_def split: sum.splits)

lemma fst_bind: "fst (bind m f) = (case snd m of Inl e \<Rightarrow> fst m | Inr x \<Rightarrow> fst m @ fst (f x))"
  by (simp add: bind_def split: sum.splits)

lemma snd_catch: "snd (catch m h) = (case snd m of Inl e \<Rightarrow> snd (h e) | Inr x \<Rightarrow> Inr x)"
  by (simp add: catch_def split: sum.splits)

lemma fst_catch: "fst (catch m h) = (case snd m of Inl e \<Rightarrow> fst m @ fst (h e) | Inr x \<Rightarrow> fst m)"
  by (simp add: catch_def split: sum.splits)

lemma failed_simps [simp]:
  "\<not> failed (ret x)"
  "failed (throw e)"
  "\<not> failed (emit st)"
  "failed (call r a) = isl a"
  "\<not> failed (delay n)"
  by (simp_all add: failed_def)

lemma failed_bind: "failed (bind m f) = (failed m \<or> (\<exists>x. snd m = Inr x \<and> failed (f x)))"
  by (auto simp: failed_def snd_bind split: sum.splits)

lemma failed_catch: "failed (catch m h) = (\<exists>e. snd m = Inl e \<and> failed (h e))"
  by (auto simp: failed_def snd_catch split: sum.splits)

lemma ex_result: "(\<exists>x. snd m = Inr x \<and> P) = (\<not> failed m \<and> P)"
  by (cases "snd m") (auto simp: failed_def)

lemma failed_bind_const: "(\<And>x. failed (f x) = P) \<Longrightarrow> failed (bind m f) = (failed m \<or> P)"
  by (cases "snd m") (auto simp: failed_def snd_bind)

lemma failed_uploadWithRetry: "failed (uploadWithRetry gh k 3) = failsThrice gh k"
  by (cases "createBlob gh k 0"; cases "createBlob gh k 1"; cases "createBlob gh k 2")
     (simp_all add: numeral_3_eq_3 numeral_2_eq_2 failed_catch failed_bind failsThrice_def snd_bind)

lemma failed_uploadOne: "failed (uploadOne gh fs k) = failsThrice gh k"
  unfolding uploadOne_def by (simp add: failed_bind failed_uploadWithRetry del: One_nat_def)

lemma failed_uploadBatch:
  "failed (uploadBatch gh fs i) = (\<exists>k \<in> {i ..< min (i + BATCH_SIZE) (length fs)}. failsThrice gh k)"
  unfolding uploadBatch_def
  by (simp add: failed_bind failed_promiseAll failed_uploadOne del: One_nat_def)

lemma failed_uploadBlobs:
  "failed (uploadBlobs gh fs i items) = (\<exists>k. i \<le> k \<and> k < length fs \<and> failsThrice gh k)"
proof (induction gh fs i items rule: uploadBlobs.induct)
  case (1 gh fs i items)
  show ?case
  proof (cases "i < length fs")
    case True
    have step: "failed (bind (emit st) (\<lambda>_. uploadBlobs gh fs (i + BATCH_SIZE) (items @ x)))
        = (\<exists>k. i + BATCH_SIZE \<le> k \<and> k < length fs \<and> failsThrice gh k)" for st x
      by (simp add: failed_bind "1.IH" [OF True])
    have "failed (uploadBlobs gh fs i items) =
        (failed (uploadBatch gh fs i)
         \<or> (\<exists>k. i + BATCH_SIZE \<le> k \<and> k < length fs \<and> failsThrice gh k))"
      by (subst uploadBlobs.simps) (simp only: True if_True failed_bind_const [OF step])
    also have "\<dots> = ((\<exists>k \<in> {i ..< min (i + BATCH_SIZE) (length fs)}. failsThrice gh k)
         \<or> (\<exists>k. i + BATCH_SIZE \<le> k \<and> k < length fs \<and> failsThrice gh k))"
      by (simp only: failed_uploadBatch)
    also have "\<dots> = (\<exists>k. i \<le> k \<and> k < length fs \<and> failsThrice gh k)"
    proof (intro iffI)
      assume "(\<exists>k \<in> {i ..< min (i + BATCH_SIZE) (length fs)}. failsThrice gh k)
         \<or> (\<exists>k. i + BATCH_SIZE \<le> k \<and> k < length fs \<and> failsThrice gh k)"
      then show "\<exists>k. i \<le> k \<and> k < length fs \<and> failsThrice gh k"
      proof
        assume "\<exists>k \<in> {i ..< min (i + BATCH_SIZE) (length fs)}. failsThrice gh k"
        then show ?thesis by auto
      next
        assume "\<exists>k. i + BATCH_SIZE \<le> k \<and> k < length fs \<and> failsThrice gh k"
        then obtain k where "i + BATCH_SIZE \<le> k" "k < length fs" "failsThrice gh k" by blast
        moreover from this have "i \<le> k" by simp
        ultimately show ?thesis by blast
      qed
    next
      assume "\<exists>k. i \<le> k \<and> k < length fs \<and> failsThrice gh k"
      then obtain k where k: "i \<le> k" "k < length fs" "failsThrice gh k" by blast
      show "(\<exists>k \<in> {i ..< min (i + BATCH_SIZE) (length fs)}. failsThrice gh k)
         \<or> (\<exists>k. i + BATCH_SIZE \<le> k \<and> k < length fs \<and> failsThrice gh k)"
      proof (cases "k < i + BATCH_SIZE")
        case True
        with k have "k \<in> {i ..< min (i + BATCH_SIZE) (length fs)}" by simp
        with k(3) show ?thesis by blast
      next
        case False
        with k show ?thesis by auto
      qed
    qed
    finally show ?thesis .
  next
    case False
    then show ?thesis by (subst uploadBlobs.simps) auto
  qed
qed

text \<open>
  Claim C4. For every provider behaviour, both deploy functions keep the contract of the
  event sink: the callback receives exactly one \<open>error\<close> status if and only if the run
  fails and none if it succeeds, and when the run fails the \<open>error\<close> status is the last
  action of the run, after which the same error is thrown again.
\<close>

theorem error_event_iff_failure:
  "errorContract (deployZipToGitHub gh repoName analysis customDomain patches) \<and>
   errorContract (deployZipToFirebase fb siteId analysis)"
  unfolding deployZipToGitHub_def deployZipToFirebase_def
  by (intro conjI errorContract_reportFailure quiet_gitHubBody quiet_firebaseBody)

theorem error_event_iff_failure_witness:
  "failed (deployZipToGitHub (okGitHub\<lparr>getAuthenticated := Inl (httpError 401)\<rparr>) ''site'' sampleAnalysis None []) \<and>
   length (errorEvents (deployZipToGitHub (okGitHub\<lparr>getAuthenticated := Inl (httpError 401)\<rparr>) ''site'' sampleAnalysis None [])) = 1 \<and>
   \<not> failed (deployZipToFirebase okFirebase ''site'' sampleAnalysis) \<and>
   errorEvents (deployZipToFirebase okFirebase ''site'' sampleAnalysis) = []"
proof -
  let ?D = "deployZipToGitHub (okGitHub\<lparr>getAuthenticated := Inl (httpError 401)\<rparr>) ''site'' sampleAnalysis None []"
  let ?F = "deployZipToFirebase okFirebase ''site'' sampleAnalysis"
  have d: "failed ?D"
    by (simp add: deployZipToGitHub_def gitHubBody_def reportFailure_def okGitHub_def
        failed_catch failed_bind snd_bind)
  have f: "\<not> failed ?F"
    by (simp add: deployZipToFirebase_def firebaseBody_def reportFailure_def okFirebase_def okResponse_def
        newVersion_def fetchJson_def fetchOk_def named_def failed_catch failed_bind snd_bind)
  have cd: "errorContract ?D"
    by (rule conjunct1 [OF error_event_iff_failure])
  have cf: "errorContract ?F"
    by (rule conjunct2 [OF error_event_iff_failure])
  from cd d have 1: "length (errorEvents ?D) = 1"
    unfolding errorContract_def by blast
  from cf f have 2: "errorEvents ?F = []"
    unfolding errorContract_def by blast
  from d 1 f 2 show ?thesis by blast
qed


section \<open>Deployment: which failures end a run\<close>

lemma failed_createOrGetRepository [simp]:
  "failed (createOrGetRepository gh rn) = repositoryFails gh"
  by (cases "createForAuthenticatedUser gh")
     (simp_all add: createOrGetRepository_def repositoryFails_def failed_catch failed_bind snd_bind)

lemma result_prepare [simp]: "snd (prepare a p c) = Inr (prepareFiles (files a) p c)"
  by (simp add: prepare_def snd_bind)

lemma failed_total [simp]:
  "\<not> failed (prepare a p c)"
  "\<not> failed (readHead gh)"
  "\<not> failed (enablePages gh owner rn)"
  by (auto simp: failed_def readHead_def enablePages_def Let_def snd_bind snd_catch split: sum.splits)

lemma ex_Inr: "(\<exists>x. a = Inr x) = (\<not> isl a)"
  by (cases a) auto

lemma ex_snd_Inr: "(\<exists>x. snd m = Inr x) = (\<not> failed m)"
  by (simp add: failed_def ex_Inr)

lemma ex_snd_Inr_pair: "(\<exists>x y. snd m = Inr (x, y)) = (\<not> failed m)"
  by (cases "snd m") (auto simp: failed_def)

lemma isl_snd: "isl (snd m) = failed m"
  by (simp add: failed_def)

lemma failed_gitHubBody:
  "failed (gitHubBody gh rn a c p) =
     (isl (getAuthenticated gh) \<or> repositoryFails gh
      \<or> (\<exists>k < length (prepareFiles (files a) p c). failsThrice gh k)
      \<or> isl (createTree gh) \<or> isl (createCommit gh) \<or> isl (updateRef gh))"
  unfolding gitHubBody_def
  by (simp add: failed_bind ex_result failed_uploadBlobs split_paired_Ex)
     (auto simp: ex_Inr ex_snd_Inr_pair isl_snd failed_uploadBlobs)

lemma failed_pair [simp]: "failed (t, r) = isl r"
  by (simp add: failed_def)

lemma fst_throwFailed [simp]: "fst (throwFailed what res) = []"
  by (cases "json res") (auto simp: throwFailed_def fst_bind split: prod.splits)

lemma failed_throwFailed [simp]: "failed (throwFailed what res)"
  by (cases "json res") (auto simp: throwFailed_def failed_def snd_bind split: prod.splits)

lemma snd_throwFailed: "snd (throwFailed what res) \<noteq> Inr x"
  by (cases "json res") (auto simp: throwFailed_def snd_bind split: prod.splits)

lemma fst_fetch [simp]:
  "fst (fetchJson r a what) = [Call r]"
  "fst (fetchOk r b what) = [Call r]"
  by (cases a; cases b; simp add: fetchJson_def fetchOk_def fst_bind split: sum.splits prod.splits)+

lemma failed_fetchOk [simp]: "failed (fetchOk r a what) = notOk a"
  by (cases a) (simp_all add: fetchOk_def failed_bind notOk_def)

lemma snd_fetchJson: "snd (fetchJson r a what) = Inr x \<longleftrightarrow> payload a = Some x \<and> \<not> unreadable a"
proof (cases a)
  case (Inl e)
  then show ?thesis by (simp add: fetchJson_def snd_bind payload_def unreadable_def)
next
  case (Inr res)
  show ?thesis
  proof (cases "ok res")
    case True
    with Inr show ?thesis
      by (cases "json res") (auto simp: fetchJson_def snd_bind payload_def unreadable_def)
  next
    case False
    from Inr False show ?thesis
      by (simp add: fetchJson_def snd_bind payload_def unreadable_def snd_throwFailed)
  qed
qed

lemma failed_fetchJson [simp]: "failed (fetchJson r a what) = unreadable a"
proof (cases a)
  case (Inl e)
  then show ?thesis by (simp add: fetchJson_def failed_bind unreadable_def)
next
  case (Inr res)
  then show ?thesis
    by (cases "json res"; cases "ok res")
       (auto simp: fetchJson_def failed_bind unreadable_def)
qed

lemma fst_uploadHash [simp]: "fst (uploadHash fb hs k) = [Call (UploadFile k)]"
  by (cases "uploadFile fb k") (simp_all add: uploadHash_def fst_bind)

lemma failed_uploadHash [simp]: "failed (uploadHash fb hs k) = notOk (uploadFile fb k)"
  by (cases "uploadFile fb k") (simp_all add: uploadHash_def failed_bind notOk_def)

lemma failed_uploadRequired:
  "failed (uploadRequired fb hs i) = (\<exists>k. i \<le> k \<and> k < length hs \<and> notOk (uploadFile fb k))"
proof (induction fb hs i rule: uploadRequired.induct)
  case (1 fb hs i)
  show ?case
  proof (cases "i < length hs")
    case True
    have step: "failed (bind (emit st) (\<lambda>_. uploadRequired fb hs (i + BATCH_SIZE)))
        = (\<exists>k. i + BATCH_SIZE \<le> k \<and> k < length hs \<and> notOk (uploadFile fb k))" for st and x :: "unit list"
      by (simp add: failed_bind "1.IH" [OF True])
    have "failed (uploadRequired fb hs i) =
        (failed (promiseAll (uploadArrival fb i) (map (uploadHash fb hs) [i ..< min (i + BATCH_SIZE) (length hs)]))
         \<or> (\<exists>k. i + BATCH_SIZE \<le> k \<and> k < length hs \<and> notOk (uploadFile fb k)))"
      by (subst uploadRequired.simps) (simp only: True if_True failed_bind_const [OF step])
    also have "\<dots> = ((\<exists>k \<in> {i ..< min (i + BATCH_SIZE) (length hs)}. notOk (uploadFile fb k))
         \<or> (\<exists>k. i + BATCH_SIZE \<le> k \<and> k < length hs \<and> notOk (uploadFile fb k)))"
      by (simp add: failed_promiseAll)
    also have "\<dots> = (\<exists>k. i \<le> k \<and> k < length hs \<and> notOk (uploadFile fb k))"
    proof (intro iffI)
      assume "(\<exists>k \<in> {i ..< min (i + BATCH_SIZE) (length hs)}. notOk (uploadFile fb k))
         \<or> (\<exists>k. i + BATCH_SIZE \<le> k \<and> k < length hs \<and> notOk (uploadFile fb k))"
      then show "\<exists>k. i \<le> k \<and> k < length hs \<and> notOk (uploadFile fb k)"
      proof
        assume "\<exists>k \<in> {i ..< min (i + BATCH_SIZE) (length hs)}. notOk (uploadFile fb k)"
        then show ?thesis by auto
      next
        assume "\<exists>k. i + BATCH_SIZE \<le> k \<and> k < length hs \<and> notOk (uploadFile fb k)"
        then obtain k where "i + BATCH_SIZE \<le> k" "k < length hs" "notOk (uploadFile fb k)" by blast
        moreover from this have "i \<le> k" by simp
        ultimately show ?thesis by blast
      qed
    next
      assume "\<exists>k. i \<le> k \<and> k < length hs \<and> notOk (uploadFile fb k)"
      then obtain k where k: "i \<le> k" "k < length hs" "notOk (uploadFile fb k)" by blast
      show "(\<exists>k \<in> {i ..< min (i + BATCH_SIZE) (length hs)}. notOk (uploadFile fb k))
         \<or> (\<exists>k. i + BATCH_SIZE \<le> k \<and> k < length hs \<and> notOk (uploadFile fb k))"
      proof (cases "k < i + BATCH_SIZE")
        case True
        with k have "k \<in> {i ..< min (i + BATCH_SIZE) (length hs)}" by simp
        with k(3) show ?thesis by blast
      next
        case False
        with k show ?thesis by auto
      qed
    qed
    finally show ?thesis .
  next
    case False
    then show ?thesis by (subst uploadRequired.simps) auto
  qed
qed

lemma snd_unit: "(snd (m :: unit run) = Inr ()) = (\<not> failed m)"
  by (cases "snd m") (auto simp: failed_def)

lemma payload_ex: "\<not> unreadable a \<Longrightarrow> \<exists>d. payload a = Some d"
  by (cases a) (auto simp: unreadable_def payload_def split: sum.splits)

lemma failed_emit_bind: "failed (f ()) = P \<Longrightarrow> failed (bind (emit st) f) = P"
  by (simp add: failed_bind)

lemma failed_fetchOk_bind:
  "(\<And>x. failed (f x) = P) \<Longrightarrow> failed (bind (fetchOk r a w) f) = (notOk a \<or> P)"
  by (subst failed_bind_const [where P = P]) simp_all

lemma failed_fetchJson_bind:
  "(\<And>x. failed (f x) = Q x) \<Longrightarrow>
   failed (bind (fetchJson r a w) f) = (unreadable a \<or> (\<exists>x. payload a = Some x \<and> Q x))"
  by (auto simp: failed_bind snd_fetchJson)

lemma failed_upload_bind:
  "(\<And>x. failed (f x) = P) \<Longrightarrow>
   failed (bind (if length hs > 0 then bind (emit s0) (\<lambda>_. uploadRequired fb hs 0) else emit s4) f)
     = ((\<exists>k < length hs. notOk (uploadFile fb k)) \<or> P)"
  by (subst failed_bind_const [where P = P]) (auto simp: failed_bind failed_uploadRequired snd_unit)

lemma snd_newVersion:
  "snd (newVersion fb) = Inr v \<longleftrightarrow> payload (createVersion fb) = Some (Some v) \<and> \<not> unreadable (createVersion fb)"
proof (cases "snd (fetchJson CreateVersion (createVersion fb) ''Failed to create version'')")
  case (Inl e)
  then have "failed (fetchJson CreateVersion (createVersion fb) ''Failed to create version'')"
    by (simp add: failed_def)
  with Inl show ?thesis by (simp add: newVersion_def snd_bind)
next
  case (Inr name)
  then have p: "payload (createVersion fb) = Some name \<and> \<not> unreadable (createVersion fb)"
    by (simp add: snd_fetchJson)
  with Inr show ?thesis by (cases name) (auto simp: newVersion_def snd_bind named_def)
qed

lemma failed_newVersion:
  "failed (newVersion fb) = (unreadable (createVersion fb) \<or> payload (createVersion fb) = Some None)"
proof -
  have "failed (newVersion fb) = (unreadable (createVersion fb)
      \<or> (\<exists>name. payload (createVersion fb) = Some name \<and> name = None))"
    unfolding newVersion_def
    by (auto simp: failed_bind snd_fetchJson named_def split: option.splits)
  then show ?thesis by auto
qed

lemma failed_newVersion_bind:
  "(\<And>x. failed (f x) = P) \<Longrightarrow>
   failed (bind (newVersion fb) f)
     = (unreadable (createVersion fb) \<or> payload (createVersion fb) = Some None \<or> P)"
  by (subst failed_bind_const [where P = P]) (auto simp: failed_newVersion)

lemma failed_firebaseBody:
  "failed (firebaseBody fb siteId a) =
     (unreadable (createVersion fb) \<or> payload (createVersion fb) = Some None
      \<or> unreadable (populateFiles fb)
      \<or> (\<exists>hs. payload (populateFiles fb) = Some hs \<and> (\<exists>k < length hs. notOk (uploadFile fb k)))
      \<or> notOk (finalizeVersion fb) \<or> notOk (createRelease fb))"
proof -
  have "failed (firebaseBody fb siteId a) =
     (unreadable (createVersion fb) \<or> payload (createVersion fb) = Some None \<or>
       (unreadable (populateFiles fb) \<or> (\<exists>hs. payload (populateFiles fb) = Some hs \<and>
          ((\<exists>k < length hs. notOk (uploadFile fb k))
           \<or> (notOk (finalizeVersion fb) \<or> (notOk (createRelease fb) \<or> False))))))"
    unfolding firebaseBody_def
    by (intro failed_emit_bind failed_fetchOk_bind failed_fetchJson_bind failed_upload_bind
          failed_newVersion_bind)
       (simp add: failed_def)
  also have "\<dots> = (unreadable (createVersion fb) \<or> payload (createVersion fb) = Some None
      \<or> unreadable (populateFiles fb)
      \<or> (\<exists>hs. payload (populateFiles fb) = Some hs \<and> (\<exists>k < length hs. notOk (uploadFile fb k)))
      \<or> notOk (finalizeVersion fb) \<or> notOk (createRelease fb))"
    using payload_ex [of "populateFiles fb"] by blast
  finally show ?thesis .
qed

lemma failed_reportFailure: "failed (reportFailure body) = failed body"
  by (cases "snd body") (simp_all add: reportFailure_ok reportFailure_failed failed_def)

text \<open>
  A run stops at the first request that is answered with an error it does not handle.
  The invariant \<open>stops\<close> is kept by sequencing and holds for every phase.
\<close>

lemma haltedI:
  "as = pre @ Call c # post \<Longrightarrow> F c = Some e \<Longrightarrow> (\<And>a. a \<in> set post \<Longrightarrow> besides c a)
   \<Longrightarrow> (\<And>c'. Call c' \<in> set pre \<Longrightarrow> F c' \<noteq> None \<Longrightarrow> sameBatch c c') \<Longrightarrow> halted F e as"
  unfolding halted_def by blast

lemma halted_single: "F c = Some e \<Longrightarrow> halted F e [Call c]"
  unfolding halted_def
  by (rule exI [where x = "[]"], rule exI [where x = c], rule exI [where x = "[]"]) simp

lemma stops_value: "snd m = Inr x \<Longrightarrow> clean F (fst m) \<Longrightarrow> stops F m"
  by (simp add: stops_def)

lemma stops_basic [intro!, simp]:
  "stops F (ret x)"
  "stops F (emit st)"
  "stops F (delay n)"
  by (simp_all add: stops_def clean_def)

lemma stops_call: "thrown a = F c \<Longrightarrow> stops F (call c a)"
proof (cases a)
  case (Inl e)
  assume "thrown a = F c"
  with Inl have f: "F c = Some e" by (simp add: thrown_def)
  have "halted F e [Call c]" using f by (rule halted_single)
  with Inl show ?thesis by (simp add: stops_def)
next
  case (Inr x)
  assume "thrown a = F c"
  with Inr show ?thesis by (simp add: stops_def clean_def thrown_def)
qed

lemma stops_step:
  assumes "fst m = [Call c]" "thrownBy m = F c"
  shows "stops F m"
proof (cases "snd m")
  case (Inl e)
  with assms(2) have f: "F c = Some e" by (simp add: thrownBy_def thrown_def)
  have "halted F e [Call c]" using f by (rule halted_single)
  with Inl assms(1) show ?thesis by (simp add: stops_def)
next
  case (Inr x)
  with assms show ?thesis by (simp add: stops_def clean_def thrownBy_def thrown_def)
qed

lemma stops_bind:
  assumes "stops F m" "\<And>x. snd m = Inr x \<Longrightarrow> stops F (f x)"
  shows "stops F (bind m f)"
proof (cases "snd m")
  case (Inl e)
  with assms(1) show ?thesis by (simp add: stops_def fst_bind snd_bind)
next
  case (Inr x)
  with assms(1) have c: "clean F (fst m)" by (simp add: stops_def)
  from assms(2) [OF Inr] have s: "stops F (f x)" .
  show ?thesis
  proof (cases "snd (f x)")
    case (Inl e)
    with s have "halted F e (fst (f x))" by (simp add: stops_def)
    then obtain pre c' post where h: "fst (f x) = pre @ Call c' # post" "F c' = Some e"
      "\<forall>a \<in> set post. besides c' a"
      "\<forall>c''. Call c'' \<in> set pre \<longrightarrow> F c'' \<noteq> None \<longrightarrow> sameBatch c' c''"
      unfolding halted_def by blast
    have "halted F e (fst m @ fst (f x))"
    proof (rule haltedI [where pre = "fst m @ pre" and c = c' and post = post])
      show "fst m @ fst (f x) = (fst m @ pre) @ Call c' # post" using h(1) by simp
      show "F c' = Some e" by (rule h(2))
      show "besides c' a" if "a \<in> set post" for a using h(3) that by blast
      show "sameBatch c' c''" if "Call c'' \<in> set (fst m @ pre)" "F c'' \<noteq> None" for c''
        using that c h(4) by (auto simp: clean_def)
    qed
    with Inr Inl show ?thesis by (simp add: stops_def fst_bind snd_bind)
  next
    case r: (Inr y)
    with s have "clean F (fst (f x))" by (simp add: stops_def)
    with c Inr r show ?thesis by (auto simp: stops_def fst_bind snd_bind clean_def)
  qed
qed

lemma stops_if: "stops F x \<Longrightarrow> stops F y \<Longrightarrow> stops F (if b then x else y)"
  by simp

lemma stops_case_prod: "(\<And>a b. stops F (f a b)) \<Longrightarrow> stops F (case_prod f x)"
  by (cases x) simp

text \<open>The phases of the Git backend that issue requests outside the uploads.\<close>

lemma stops_createOrGetRepository: "stops (fatal gh) (createOrGetRepository gh rn)"
proof (cases "createForAuthenticatedUser gh")
  case (Inr b)
  then show ?thesis
    by (simp add: createOrGetRepository_def stops_def clean_def fst_catch snd_catch fst_bind snd_bind)
next
  case (Inl e)
  show ?thesis
  proof (cases "err_status e = Some 422")
    case False
    with Inl have r: "createOrGetRepository gh rn = ([Call CreateForAuthenticatedUser], Inl e)"
      by (simp add: createOrGetRepository_def catch_def bind_def call_def throw_def)
    from Inl False have f: "fatal gh CreateForAuthenticatedUser = Some e" by simp
    have "halted (fatal gh) e [Call CreateForAuthenticatedUser]" using f by (rule halted_single)
    with r show ?thesis by (simp add: stops_def)
  next
    case True
    let ?s = "info (''Repository '' @ [dq] @ rn @ [dq] @ '' already exists. Fetching details...'')"
    from Inl True have r: "createOrGetRepository gh rn
        = ([Call CreateForAuthenticatedUser, Emit ?s, Call ReposGet], reposGet gh)"
      by (simp add: createOrGetRepository_def catch_def bind_def call_def emit_def)
    show ?thesis
    proof (cases "reposGet gh")
      case g: (Inl e')
      from Inl True g have f: "fatal gh ReposGet = Some e'" "fatal gh CreateForAuthenticatedUser = None"
        by (simp_all add: thrown_def)
      have "halted (fatal gh) e' [Call CreateForAuthenticatedUser, Emit ?s, Call ReposGet]"
        by (rule haltedI [where pre = "[Call CreateForAuthenticatedUser, Emit ?s]" and post = "[]"
              and c = ReposGet])
           (auto simp: f simp del: fatal.simps)
      with r g show ?thesis by (simp add: stops_def)
    next
      case g: (Inr b)
      with Inl True r show ?thesis by (auto simp: stops_def clean_def thrown_def)
    qed
  qed
qed

lemma calls_prepare: "Call c \<notin> set (fst (prepare a p cd))"
  by (simp add: prepare_def fst_bind snd_bind)

lemma calls_readHead: "Call c \<in> set (fst (readHead gh)) \<Longrightarrow> c = GetRef \<or> c = GetCommit"
  by (auto simp: readHead_def fst_catch fst_bind snd_bind snd_catch split: sum.splits)

lemma calls_enablePages:
  "Call c \<in> set (fst (enablePages gh owner rn)) \<Longrightarrow> c = CreatePagesSite \<or> c = GetPages"
  by (auto simp: enablePages_def Let_def fst_catch fst_bind snd_bind snd_catch split: sum.splits if_splits)

lemma stops_total [intro!, simp]:
  "stops (fatal gh) (prepare a p cd)"
  "stops (fatal gh) (readHead gh)"
  "stops (fatal gh) (enablePages gh owner rn)"
proof -
  obtain x where "snd (prepare a p cd) = Inr x" by simp
  then show "stops (fatal gh) (prepare a p cd)"
    by (rule stops_value) (simp add: clean_def calls_prepare)
  obtain y where "snd (readHead gh) = Inr y"
    using failed_total(2) [of gh] by (cases "snd (readHead gh)") (auto simp: failed_def)
  then show "stops (fatal gh) (readHead gh)"
    by (rule stops_value) (auto simp: clean_def dest: calls_readHead)
  obtain z where "snd (enablePages gh owner rn) = Inr z"
    using failed_total(3) [of gh owner rn] by (cases "snd (enablePages gh owner rn)") (auto simp: failed_def)
  then show "stops (fatal gh) (enablePages gh owner rn)"
    by (rule stops_value) (auto simp: clean_def dest: calls_enablePages)
qed

text \<open>One upload, in closed form.\<close>

lemma uploadWithRetry_run:
  "uploadWithRetry gh k 3 =
     (case createBlob gh k 0 of
        Inr sha \<Rightarrow> ([Call (CreateBlob k 0)], Inr (Some sha))
      | Inl e0 \<Rightarrow>
          (case createBlob gh k 1 of
             Inr sha \<Rightarrow> ([Call (CreateBlob k 0), Delay 1000, Call (CreateBlob k 1)], Inr (Some sha))
           | Inl e1 \<Rightarrow>
               ([Call (CreateBlob k 0), Delay 1000, Call (CreateBlob k 1), Delay 1000, Call (CreateBlob k 2)],
                case createBlob gh k 2 of Inl e2 \<Rightarrow> Inl e2 | Inr sha \<Rightarrow> Inr (Some sha))))"
  by (cases "createBlob gh k 0"; cases "createBlob gh k 1"; cases "createBlob gh k 2")
     (simp_all add: numeral_3_eq_3 numeral_2_eq_2 catch_def bind_def call_def ret_def throw_def delay_def)

lemma fst_uploadOne: "fst (uploadOne gh fs k) = fst (uploadWithRetry gh k 3)"
  unfolding uploadOne_def by (cases "snd (uploadWithRetry gh k 3)") (simp_all add: fst_bind)

lemma uploadOne_actions:
  assumes "a \<in> set (fst (uploadOne gh fs k))"
  shows "a = Delay 1000 \<or> (\<exists>t < 3. a = Call (CreateBlob k t))"
  using assms unfolding fst_uploadOne uploadWithRetry_run by (auto split: sum.splits)

lemma uploadOne_starts: "fst (uploadOne gh fs k) \<noteq> [] \<and> hd (fst (uploadOne gh fs k)) = Call (CreateBlob k 0)"
  unfolding fst_uploadOne uploadWithRetry_run by (auto split: sum.splits)

lemma uploadOne_attempts: "length (filter (attemptOf j) (fst (uploadOne gh fs k))) \<le> (if j = k then 3 else 0)"
  unfolding fst_uploadOne uploadWithRetry_run by (auto split: sum.splits)

lemma snd_uploadOne:
  "snd (uploadOne gh fs k) =
     (case snd (uploadWithRetry gh k 3) of Inl e \<Rightarrow> Inl e | Inr sha \<Rightarrow> Inr (treeItemOf fs k sha))"
  unfolding uploadOne_def by (simp add: snd_bind split: sum.splits)

lemma uploadOne_rejected:
  assumes "snd (uploadOne gh fs k) = Inl e"
  shows "createBlob gh k 2 = Inl e \<and> failsThrice gh k \<and> Call (CreateBlob k 2) \<in> set (fst (uploadOne gh fs k))"
  using assms unfolding fst_uploadOne snd_uploadOne uploadWithRetry_run
  by (auto simp: failsThrice_def split: sum.splits)

lemma uploadOne_clean:
  assumes "snd (uploadOne gh fs k) = Inr x"
  shows "clean (fatal gh) (fst (uploadOne gh fs k))"
  using assms unfolding fst_uploadOne snd_uploadOne uploadWithRetry_run
  by (auto simp: clean_def thrown_def split: sum.splits)

text \<open>A batch, whatever the order of arrival.\<close>

lemma stops_promiseAll:
  assumes local: "\<And>m a c. m \<in> set ms \<Longrightarrow> a \<in> set (fst m) \<Longrightarrow> B c \<Longrightarrow> besides c a"
    and batch: "\<And>m c. m \<in> set ms \<Longrightarrow> Call c \<in> set (fst m) \<Longrightarrow> B c"
    and ok: "\<And>m x. m \<in> set ms \<Longrightarrow> snd m = Inr x \<Longrightarrow> clean F (fst m)"
    and bad: "\<And>m e. m \<in> set ms \<Longrightarrow> snd m = Inl e \<Longrightarrow> \<exists>c. Call c \<in> set (fst m) \<and> F c = Some e"
  shows "stops F (promiseAll arrival ms)"
proof (cases "snd (promiseAll arrival ms)")
  case (Inl e)
  from promiseAll_rejected [OF Inl] obtain m where m: "m \<in> set ms" "snd m = Inl e"
    "set (fst m) \<subseteq> set (fst (promiseAll arrival ms))" by blast
  from bad [OF m(1,2)] obtain c where c: "Call c \<in> set (fst m)" "F c = Some e" by blast
  from batch [OF m(1) c(1)] have b: "B c" .
  from c(1) m(3) have "Call c \<in> set (fst (promiseAll arrival ms))" by blast
  then obtain pre post where p: "fst (promiseAll arrival ms) = pre @ Call c # post"
    by (auto dest: split_list)
  have beside: "besides c a" if "a \<in> set (fst (promiseAll arrival ms))" for a
  proof -
    from promiseAll_actions [OF that] obtain m' where "m' \<in> set ms" "a \<in> set (fst m')" by blast
    then show ?thesis using b by (rule local)
  qed
  have "halted F e (fst (promiseAll arrival ms))"
  proof (rule haltedI [where pre = pre and c = c and post = post])
    show "fst (promiseAll arrival ms) = pre @ Call c # post" by (rule p)
    show "F c = Some e" by (rule c(2))
    show "besides c a" if "a \<in> set post" for a using that p by (intro beside) simp
    show "sameBatch c c'" if "Call c' \<in> set pre" "F c' \<noteq> None" for c'
    proof -
      from that(1) p have "besides c (Call c')" by (intro beside) simp
      then show ?thesis by simp
    qed
  qed
  with Inl show ?thesis by (simp add: stops_def)
next
  case (Inr vs)
  then have nf: "\<not> failed (promiseAll arrival ms)" by (simp add: failed_def)
  have "clean F (fst (promiseAll arrival ms))"
    unfolding clean_def
  proof (intro allI impI)
    fix c
    assume "Call c \<in> set (fst (promiseAll arrival ms))"
    from promiseAll_actions [OF this] obtain m where m: "m \<in> set ms" "Call c \<in> set (fst m)" by blast
    from nf m(1) have "\<not> failed m" by (auto simp: failed_promiseAll)
    then obtain x where "snd m = Inr x" by (cases "snd m") (auto simp: failed_def)
    from ok [OF m(1) this] m(2) show "F c = None" by (simp add: clean_def)
  qed
  with Inr show ?thesis by (simp add: stops_def)
qed

lemma same_fifth:
  assumes "5 dvd (i :: nat)" "i \<le> k" "k < i + 5"
  shows "k div 5 = i div 5"
  using assms by (auto simp: dvd_def)

lemma stops_uploadBatch:
  assumes "5 dvd i"
  shows "stops (fatal gh) (uploadBatch gh fs i)"
  unfolding uploadBatch_def
proof (rule stops_bind)
  let ?B = "\<lambda>c. \<exists>k t. c = CreateBlob k t \<and> i \<le> k \<and> k < i + 5"
  show "stops (fatal gh) (promiseAll (blobArrival gh i)
      (map (uploadOne gh fs) [i ..< min (i + BATCH_SIZE) (length fs)]))"
  proof (rule stops_promiseAll [where B = ?B])
    fix m a c
    assume "m \<in> set (map (uploadOne gh fs) [i ..< min (i + BATCH_SIZE) (length fs)])"
      and a: "a \<in> set (fst m)" and "?B c"
    then obtain k j t where k: "m = uploadOne gh fs k" "i \<le> k" "k < i + 5"
      and c: "c = CreateBlob j t" "i \<le> j" "j < i + 5"
      by (auto simp: BATCH_SIZE_def)
    from uploadOne_actions [of a gh fs k] a k(1)
    have "a = Delay 1000 \<or> (\<exists>t < 3. a = Call (CreateBlob k t))" by simp
    with c k same_fifth [OF assms, of k] same_fifth [OF assms, of j]
    show "besides c a" by (auto simp: sameBatch_def)
  next
    fix m c
    assume "m \<in> set (map (uploadOne gh fs) [i ..< min (i + BATCH_SIZE) (length fs)])"
      and c: "Call c \<in> set (fst m)"
    then obtain k where k: "m = uploadOne gh fs k" "i \<le> k" "k < i + 5"
      by (auto simp: BATCH_SIZE_def)
    from uploadOne_actions [of "Call c" gh fs k] c k(1) have "\<exists>t. c = CreateBlob k t" by auto
    with k show "?B c" by blast
  next
    fix m x
    assume "m \<in> set (map (uploadOne gh fs) [i ..< min (i + BATCH_SIZE) (length fs)])" "snd m = Inr x"
    then show "clean (fatal gh) (fst m)" by (auto intro: uploadOne_clean)
  next
    fix m e
    assume "m \<in> set (map (uploadOne gh fs) [i ..< min (i + BATCH_SIZE) (length fs)])" "snd m = Inl e"
    then obtain k where "m = uploadOne gh fs k" "snd (uploadOne gh fs k) = Inl e" by auto
    with uploadOne_rejected [of gh fs k e]
    have "Call (CreateBlob k 2) \<in> set (fst m) \<and> fatal gh (CreateBlob k 2) = Some e"
      by (simp add: thrown_def)
    then show "\<exists>c. Call c \<in> set (fst m) \<and> fatal gh c = Some e" by blast
  qed
qed simp

lemma stops_uploadBlobs:
  "5 dvd i \<Longrightarrow> stops (fatal gh) (uploadBlobs gh fs i items)"
proof (induction gh fs i items rule: uploadBlobs.induct)
  case (1 gh fs i items)
  show ?case
  proof (cases "i < length fs")
    case True
    from "1.prems" have d: "5 dvd i + BATCH_SIZE" by (simp add: BATCH_SIZE_def)
    show ?thesis
      by (subst uploadBlobs.simps)
         (auto simp: True intro!: stops_bind stops_uploadBatch "1.prems" "1.IH" [OF True d])
  next
    case False
    then show ?thesis by (subst uploadBlobs.simps) simp
  qed
qed

lemma stops_gitHubBody: "stops (fatal gh) (gitHubBody gh rn a cd p)"
  unfolding gitHubBody_def
  by (intro stops_bind stops_case_prod stops_createOrGetRepository stops_uploadBlobs stops_call
        stops_basic stops_total)
     (simp_all add: thrown_def)

text \<open>The content-addressed backend.\<close>

lemma fst_named [simp]: "fst (named name) = []"
  by (cases name) (simp_all add: named_def)

lemma fst_newVersion [simp]: "fst (newVersion fb) = [Call CreateVersion]"
  unfolding newVersion_def
  by (cases "snd (fetchJson CreateVersion (createVersion fb) ''Failed to create version'')")
     (simp_all add: fst_bind)

lemma stops_steps:
  "stops (rejection fb) (newVersion fb)"
  "stops (rejection fb) (fetchJson PopulateFiles (populateFiles fb) ''Failed to populate files'')"
  "stops (rejection fb) (fetchOk FinalizeVersion (finalizeVersion fb) ''Failed to finalize version'')"
  "stops (rejection fb) (fetchOk CreateRelease (createRelease fb) ''Failed to release'')"
  "stops (rejection fb) (uploadHash fb (requiredOf fb) k)"
proof -
  show "stops (rejection fb) (newVersion fb)"
    by (rule stops_step [where c = CreateVersion]) simp_all
  show "stops (rejection fb) (fetchJson PopulateFiles (populateFiles fb) ''Failed to populate files'')"
    by (rule stops_step [where c = PopulateFiles]) simp_all
  show "stops (rejection fb) (fetchOk FinalizeVersion (finalizeVersion fb) ''Failed to finalize version'')"
    by (rule stops_step [where c = FinalizeVersion]) simp_all
  show "stops (rejection fb) (fetchOk CreateRelease (createRelease fb) ''Failed to release'')"
    by (rule stops_step [where c = CreateRelease]) simp_all
  show "stops (rejection fb) (uploadHash fb (requiredOf fb) k)"
    by (rule stops_step [where c = "UploadFile k"]) simp_all
qed

lemma stops_uploadRequired:
  "5 dvd i \<Longrightarrow> hs = requiredOf fb \<Longrightarrow> stops (rejection fb) (uploadRequired fb hs i)"
proof (induction fb hs i rule: uploadRequired.induct)
  case (1 fb hs i)
  show ?case
  proof (cases "i < length hs")
    case True
    from "1.prems" have d: "5 dvd i + BATCH_SIZE" by (simp add: BATCH_SIZE_def)
    let ?ms = "map (uploadHash fb hs) [i ..< min (i + BATCH_SIZE) (length hs)]"
    let ?B = "\<lambda>c. \<exists>k. c = UploadFile k \<and> i \<le> k \<and> k < i + 5"
    have b: "stops (rejection fb) (promiseAll (uploadArrival fb i) ?ms)"
    proof (rule stops_promiseAll [where B = ?B])
      fix m a c
      assume "m \<in> set ?ms" and a: "a \<in> set (fst m)" and "?B c"
      then obtain k j where k: "m = uploadHash fb hs k" "i \<le> k" "k < i + 5"
        and c: "c = UploadFile j" "i \<le> j" "j < i + 5"
        by (auto simp: BATCH_SIZE_def)
      from a k(1) have "a = Call (UploadFile k)" by simp
      with c k same_fifth [OF "1.prems"(1), of k] same_fifth [OF "1.prems"(1), of j]
      show "besides c a" by (simp add: sameBatch_def)
    next
      fix m c
      assume "m \<in> set ?ms" and c: "Call c \<in> set (fst m)"
      then obtain k where k: "m = uploadHash fb hs k" "i \<le> k" "k < i + 5"
        by (auto simp: BATCH_SIZE_def)
      with c show "?B c" by simp
    next
      fix m x
      assume "m \<in> set ?ms" "snd m = Inr x"
      then obtain k where k: "m = uploadHash fb hs k" by auto
      from stops_steps(5) [of fb k] k \<open>snd m = Inr x\<close> "1.prems"(2)
      show "clean (rejection fb) (fst m)" by (simp add: stops_def)
    next
      fix m e
      assume "m \<in> set ?ms" "snd m = Inl e"
      then obtain k where k: "m = uploadHash fb hs k" by auto
      with \<open>snd m = Inl e\<close> "1.prems"(2) have "rejection fb (UploadFile k) = Some e"
        by (simp add: thrownBy_def thrown_def)
      with k show "\<exists>c. Call c \<in> set (fst m) \<and> rejection fb c = Some e" by auto
    qed
    show ?thesis
      by (subst uploadRequired.simps)
         (auto simp: True intro!: stops_bind b "1.IH" [OF True d "1.prems"(2)])
  next
    case False
    then show ?thesis by (subst uploadRequired.simps) simp
  qed
qed

lemma requiredOf_fetched:
  "snd (fetchJson PopulateFiles (populateFiles fb) what) = Inr hs \<Longrightarrow> hs = requiredOf fb"
  by (simp add: snd_fetchJson requiredOf_def)

lemma stops_firebaseBody: "stops (rejection fb) (firebaseBody fb siteId a)"
  unfolding firebaseBody_def
  by (intro stops_bind stops_if stops_steps stops_basic stops_uploadRequired requiredOf_fetched)
     simp_all

text \<open>A failed deployment is the failed body followed by the \<open>error\<close> status.\<close>

lemma reportFailure_halted:
  assumes "stops F body" "snd (reportFailure body) = Inl e"
  shows "\<exists>pre c post. fst (reportFailure body) = pre @ Call c # post @ [Emit (failedStatus e)]
           \<and> F c = Some e \<and> (\<forall>a \<in> set post. besides c a)
           \<and> (\<forall>c'. Call c' \<in> set pre \<longrightarrow> F c' \<noteq> None \<longrightarrow> sameBatch c c')"
proof (cases "snd body")
  case (Inl e')
  with assms(2) have e: "e' = e" by (simp add: reportFailure_failed)
  from assms(1) Inl e have "halted F e (fst body)" by (simp add: stops_def)
  then obtain pre c post where "fst body = pre @ Call c # post" "F c = Some e"
    "\<forall>a \<in> set post. besides c a" "\<forall>c'. Call c' \<in> set pre \<longrightarrow> F c' \<noteq> None \<longrightarrow> sameBatch c c'"
    unfolding halted_def by blast
  moreover from Inl e have "fst (reportFailure body) = fst body @ [Emit (failedStatus e)]"
    by (simp add: reportFailure_failed)
  ultimately show ?thesis by auto
next
  case (Inr x)
  with assms(2) show ?thesis by (simp add: reportFailure_ok)
qed

text \<open>What the reads of the head leave for the tree and the commit.\<close>

lemma readHead_result:
  "snd (readHead gh) =
     Inr (case getRef gh of
            Inl _ \<Rightarrow> ([], [])
          | Inr latestCommitSha \<Rightarrow>
              (latestCommitSha, case getCommit gh of Inl _ \<Rightarrow> [] | Inr baseTreeSha \<Rightarrow> baseTreeSha))"
  by (simp add: readHead_def snd_catch snd_bind split: sum.splits)

lemma readHead_params:
  assumes "snd (readHead gh) = Inr (latestCommitSha, baseTreeSha)"
  shows "(if baseTreeSha \<noteq> [] then Some baseTreeSha else None) = baseTree gh"
    and "(if latestCommitSha \<noteq> [] then [latestCommitSha] else []) = parentsOf gh"
  using assms unfolding readHead_result baseTree_def parentsOf_def
  by (auto split: sum.splits)

lemma gitHubBody_history:
  assumes "\<not> failed (gitHubBody gh rn a cd p)"
  shows "\<exists>items tree. createTree gh = Inr tree
           \<and> Call (CreateTree (baseTree gh) items) \<in> set (fst (gitHubBody gh rn a cd p))
           \<and> Call (CreateCommit tree (parentsOf gh)) \<in> set (fst (gitHubBody gh rn a cd p))"
proof -
  let ?fs = "prepareFiles (files a) p cd"
  from assms have ok: "\<not> isl (getAuthenticated gh)" "\<not> repositoryFails gh"
    "\<not> failed (uploadBlobs gh ?fs 0 [])"
    "\<not> isl (createTree gh)" "\<not> isl (createCommit gh)" "\<not> isl (updateRef gh)"
    by (auto simp: failed_gitHubBody failed_uploadBlobs)
  from ok(1) obtain owner where o: "getAuthenticated gh = Inr owner"
    by (cases "getAuthenticated gh") auto
  from ok(2) have "\<not> failed (createOrGetRepository gh rn)" by simp
  then obtain b where b: "snd (createOrGetRepository gh rn) = Inr b"
    by (cases "snd (createOrGetRepository gh rn)") (auto simp: failed_def)
  obtain l t where r: "snd (readHead gh) = Inr (l, t)"
    using failed_total(2) [of gh] by (cases "snd (readHead gh)") (auto simp: failed_def)
  from ok(3) obtain items where u: "snd (uploadBlobs gh ?fs 0 []) = Inr items"
    by (cases "snd (uploadBlobs gh ?fs 0 [])") (auto simp: failed_def)
  from ok(4) obtain tree where t: "createTree gh = Inr tree" by (cases "createTree gh") auto
  from ok(5) obtain c where c: "createCommit gh = Inr c" by (cases "createCommit gh") auto
  from ok(6) have up: "updateRef gh = Inr ()" by (cases "updateRef gh") auto
  note prm = readHead_params [OF r]
  have "Call (CreateTree (baseTree gh) items) \<in> set (fst (gitHubBody gh rn a cd p))"
    by (simp add: gitHubBody_def fst_bind snd_bind o b r u t c up prm)
  moreover have "Call (CreateCommit tree (parentsOf gh)) \<in> set (fst (gitHubBody gh rn a cd p))"
    by (simp add: gitHubBody_def fst_bind snd_bind o b r u t c up prm)
  ultimately show ?thesis using t by blast
qed





section \<open>Deployment: the retry of blob uploads\<close>

lemma events_none: "events m = [] \<longleftrightarrow> (\<forall>st. Emit st \<notin> set (fst m))"
proof -
  have "(\<forall>st. Emit st \<notin> set (fst m)) \<longleftrightarrow> (\<forall>st. st \<notin> set (statuses (fst m)))"
    by (simp add: statuses_set)
  also have "\<dots> \<longleftrightarrow> statuses (fst m) = []" by (cases "statuses (fst m)") auto
  finally show ?thesis by (simp add: events_def)
qed

lemma fst_uploadBatch:
  "fst (uploadBatch gh fs i)
     = fst (promiseAll (blobArrival gh i) (map (uploadOne gh fs) [i ..< min (i + BATCH_SIZE) (length fs)]))"
  unfolding uploadBatch_def
  by (cases "snd (promiseAll (blobArrival gh i) (map (uploadOne gh fs) [i ..< min (i + BATCH_SIZE) (length fs)]))")
     (simp_all add: fst_bind)

lemma uploadBatch_actions:
  assumes "a \<in> set (fst (uploadBatch gh fs i))"
  shows "\<exists>j. i \<le> j \<and> j < i + 5 \<and> j < length fs \<and> a \<in> set (fst (uploadOne gh fs j))"
proof -
  from assms promiseAll_actions obtain m
    where "m \<in> set (map (uploadOne gh fs) [i ..< min (i + BATCH_SIZE) (length fs)])" "a \<in> set (fst m)"
    unfolding fst_uploadBatch by blast
  then show ?thesis by (auto simp: BATCH_SIZE_def)
qed

lemma events_uploadBatch: "events (uploadBatch gh fs i) = []"
  unfolding events_none
proof (intro allI notI)
  fix st
  assume "Emit st \<in> set (fst (uploadBatch gh fs i))"
  from uploadBatch_actions [OF this] obtain j where "Emit st \<in> set (fst (uploadOne gh fs j))" by blast
  from uploadOne_actions [OF this] show False by simp
qed

text \<open>An attempt is made only after the attempts before it have failed.\<close>

lemma uploadOne_attempt:
  assumes "Call (CreateBlob j t) \<in> set (fst (uploadOne gh fs k))"
  shows "j = k \<and> t < 3 \<and> (\<forall>s < t. isl (createBlob gh j s))"
proof -
  have two: "s = 0 \<or> s = 1" if "s < 2" for s :: nat using that by auto
  from assms show ?thesis
    unfolding fst_uploadOne uploadWithRetry_run
    by (auto split: sum.splits dest: two)
qed

lemma uploadBatch_attempt:
  assumes "Call (CreateBlob j t) \<in> set (fst (uploadBatch gh fs i))"
  shows "i \<le> j \<and> j < i + 5 \<and> j < length fs \<and> t < 3 \<and> (\<forall>s < t. isl (createBlob gh j s))"
proof -
  from uploadBatch_actions [OF assms] obtain k
    where k: "i \<le> k" "k < i + 5" "k < length fs" "Call (CreateBlob j t) \<in> set (fst (uploadOne gh fs k))"
    by blast
  from uploadOne_attempt [OF k(4)] k(1,2,3) show ?thesis by auto
qed

lemma sum_list_single:
  "sum_list (map (\<lambda>j. if k = j then c else (0 :: nat)) [a ..< b]) = (if a \<le> k \<and> k < b then c else 0)"
  by (induction b) auto

lemma uploadBatch_attempts: "length (filter (attemptOf k) (fst (uploadBatch gh fs i))) \<le> 3"
proof -
  let ?js = "[i ..< min (i + BATCH_SIZE) (length fs)]"
  have "length (filter (attemptOf k) (fst (uploadBatch gh fs i)))
      \<le> sum_list (map (\<lambda>m. length (filter (attemptOf k) (fst m))) (map (uploadOne gh fs) ?js))"
    unfolding fst_uploadBatch by (rule promiseAll_count)
  also have "\<dots> = sum_list (map (\<lambda>j. length (filter (attemptOf k) (fst (uploadOne gh fs j)))) ?js)"
    by (simp add: comp_def)
  also have "\<dots> \<le> sum_list (map (\<lambda>j. if k = j then 3 else 0) ?js)"
    by (rule sum_list_mono) (simp add: uploadOne_attempts)
  also have "\<dots> \<le> 3" unfolding sum_list_single by simp
  finally show ?thesis .
qed

text \<open>The uploads of a batch are all started before any answer arrives.\<close>

lemma uploadBatch_starts:
  "take (min 5 (length fs - i)) (fst (uploadBatch gh fs i))
     = map (\<lambda>j. Call (CreateBlob j 0)) [i ..< min (i + 5) (length fs)]"
proof -
  let ?ms = "map (uploadOne gh fs) [i ..< min (i + 5) (length fs)]"
  have l: "length ?ms = min 5 (length fs - i)" by auto
  have "take (length ?ms) (fst (promiseAll (blobArrival gh i) ?ms)) = map (\<lambda>m. hd (fst m)) ?ms"
    by (rule promiseAll_starts) (auto simp: uploadOne_starts)
  also have "\<dots> = map (\<lambda>j. Call (CreateBlob j 0)) [i ..< min (i + 5) (length fs)]"
    by (simp add: uploadOne_starts comp_def)
  finally show ?thesis unfolding fst_uploadBatch BATCH_SIZE_def l .
qed

text \<open>The batches start every five files, each followed by its status.\<close>

lemma uploadBlobs_batches:
  assumes "i = 5 * q" "\<not> failed (uploadBlobs gh fs i items)"
  shows "fst (uploadBlobs gh fs i items)
     = concat (map (\<lambda>b. fst (uploadBatch gh fs (5 * b))
                          @ [Emit (uploaded (min (5 * b + 5) (length fs)) (length fs))])
                   [q ..< (length fs + 4) div 5])"
  using assms
proof (induction gh fs i items arbitrary: q rule: uploadBlobs.induct)
  case (1 gh fs i items)
  show ?case
  proof (cases "i < length fs")
    case True
    with "1.prems"(1) have q: "q < (length fs + 4) div 5" by auto
    from "1.prems"(2) have nb: "\<not> failed (uploadBatch gh fs i)"
      by (subst (asm) uploadBlobs.simps) (simp add: True failed_bind)
    then obtain its where its: "snd (uploadBatch gh fs i) = Inr its"
      by (cases "snd (uploadBatch gh fs i)") (auto simp: failed_def)
    let ?st = "uploaded (min (i + BATCH_SIZE) (length fs)) (length fs)"
    from "1.prems"(2) its have nr: "\<not> failed (uploadBlobs gh fs (i + BATCH_SIZE) (items @ its))"
      by (subst (asm) uploadBlobs.simps) (simp add: True failed_bind)
    from "1.prems"(1) have n: "i + BATCH_SIZE = 5 * Suc q" by (simp add: BATCH_SIZE_def)
    have "fst (uploadBlobs gh fs i items)
        = fst (uploadBatch gh fs i) @ [Emit ?st] @ fst (uploadBlobs gh fs (i + BATCH_SIZE) (items @ its))"
      by (subst uploadBlobs.simps) (simp add: True fst_bind snd_bind its)
    also have "fst (uploadBlobs gh fs (i + BATCH_SIZE) (items @ its))
        = concat (map (\<lambda>b. fst (uploadBatch gh fs (5 * b))
                          @ [Emit (uploaded (min (5 * b + 5) (length fs)) (length fs))])
                   [Suc q ..< (length fs + 4) div 5])"
      by (rule "1.IH" [OF True n nr])
    finally show ?thesis
      using q "1.prems"(1) by (simp add: upt_conv_Cons BATCH_SIZE_def)
  next
    case False
    with "1.prems"(1) have "(length fs + 4) div 5 \<le> q" by auto
    with False show ?thesis by (subst uploadBlobs.simps) simp
  qed
qed

text \<open>No file is uploaded by two batches.\<close>

lemma attemptOf_call: "attemptOf k a \<Longrightarrow> \<exists>t. a = Call (CreateBlob k t)"
  by (cases "(k, a)" rule: attemptOf.cases) simp_all

lemma uploadBatch_others:
  assumes "k < i \<or> i + 5 \<le> k"
  shows "filter (attemptOf k) (fst (uploadBatch gh fs i)) = []"
proof -
  have "\<not> attemptOf k a" if "a \<in> set (fst (uploadBatch gh fs i))" for a
  proof
    assume "attemptOf k a"
    then obtain t where "a = Call (CreateBlob k t)" by (auto dest: attemptOf_call)
    with that uploadBatch_attempt [of k t gh fs i] assms show False by auto
  qed
  then show ?thesis by (simp add: filter_empty_conv)
qed

lemma uploadBlobs_attempts:
  "length (filter (attemptOf k) (fst (uploadBlobs gh fs i items))) \<le> (if i \<le> k then 3 else 0)"
proof (induction gh fs i items rule: uploadBlobs.induct)
  case (1 gh fs i items)
  show ?case
  proof (cases "i < length fs")
    case True
    let ?st = "uploaded (min (i + BATCH_SIZE) (length fs)) (length fs)"
    have b: "length (filter (attemptOf k) (fst (uploadBatch gh fs i)))
        \<le> (if i \<le> k \<and> k < i + 5 then 3 else 0)"
      using uploadBatch_attempts [of k gh fs i] uploadBatch_others [of k i gh fs] by auto
    show ?thesis
    proof (cases "snd (uploadBatch gh fs i)")
      case (Inl e)
      then have "fst (uploadBlobs gh fs i items) = fst (uploadBatch gh fs i)"
        by (subst uploadBlobs.simps) (simp add: True fst_bind)
      with b show ?thesis by (auto split: if_splits)
    next
      case (Inr its)
      then have "fst (uploadBlobs gh fs i items)
          = fst (uploadBatch gh fs i) @ [Emit ?st] @ fst (uploadBlobs gh fs (i + BATCH_SIZE) (items @ its))"
        by (subst uploadBlobs.simps) (simp add: True fst_bind snd_bind)
      moreover from "1.IH" [OF True, of its]
      have "length (filter (attemptOf k) (fst (uploadBlobs gh fs (i + BATCH_SIZE) (items @ its))))
          \<le> (if i + 5 \<le> k then 3 else 0)"
        by (simp add: BATCH_SIZE_def)
      ultimately show ?thesis using b by (auto split: if_splits)
    qed
  next
    case False
    then show ?thesis by (subst uploadBlobs.simps) simp
  qed
qed

text \<open>When the upload phase fails.\<close>

lemma uploadBlobs_attempt:
  "Call c \<in> set (fst (uploadBlobs gh fs i items))
   \<Longrightarrow> \<exists>j t. c = CreateBlob j t \<and> j < length fs \<and> t < 3 \<and> (\<forall>s < t. isl (createBlob gh j s))"
proof (induction gh fs i items rule: uploadBlobs.induct)
  case (1 gh fs i items)
  show ?case
  proof (cases "i < length fs")
    case True
    let ?st = "uploaded (min (i + BATCH_SIZE) (length fs)) (length fs)"
    have batch: "\<exists>j t. c = CreateBlob j t \<and> j < length fs \<and> t < 3 \<and> (\<forall>s < t. isl (createBlob gh j s))"
      if "Call c \<in> set (fst (uploadBatch gh fs i))"
    proof -
      from uploadBatch_actions [OF that] obtain k where "Call c \<in> set (fst (uploadOne gh fs k))" by blast
      from uploadOne_actions [OF this] obtain t where c: "c = CreateBlob k t" by auto
      with that uploadBatch_attempt [of k t gh fs i] show ?thesis by blast
    qed
    show ?thesis
    proof (cases "snd (uploadBatch gh fs i)")
      case (Inl e)
      with "1.prems" have "Call c \<in> set (fst (uploadBatch gh fs i))"
        by (subst (asm) uploadBlobs.simps) (simp add: True fst_bind)
      then show ?thesis by (rule batch)
    next
      case (Inr its)
      with "1.prems" have "Call c \<in> set (fst (uploadBatch gh fs i))
          \<or> Call c \<in> set (fst (uploadBlobs gh fs (i + BATCH_SIZE) (items @ its)))"
        by (subst (asm) uploadBlobs.simps) (auto simp: True fst_bind snd_bind)
      then show ?thesis
      proof
        assume "Call c \<in> set (fst (uploadBatch gh fs i))"
        then show ?thesis by (rule batch)
      next
        assume "Call c \<in> set (fst (uploadBlobs gh fs (i + BATCH_SIZE) (items @ its)))"
        then show ?thesis by (rule "1.IH" [OF True])
      qed
    qed
  next
    case False
    with "1.prems" show ?thesis by (subst (asm) uploadBlobs.simps) simp
  qed
qed

lemma uploadBlobs_rejected:
  assumes "snd (uploadBlobs gh fs 0 []) = Inl e"
  shows "\<exists>j. j < length fs \<and> failsThrice gh j \<and> createBlob gh j 2 = Inl e
           \<and> Call (CreateBlob j 2) \<in> set (fst (uploadBlobs gh fs 0 []))"
proof -
  have "stops (fatal gh) (uploadBlobs gh fs 0 [])" by (rule stops_uploadBlobs) simp
  with assms have "halted (fatal gh) e (fst (uploadBlobs gh fs 0 []))" by (simp add: stops_def)
  then obtain pre c post where h: "fst (uploadBlobs gh fs 0 []) = pre @ Call c # post"
    "fatal gh c = Some e" unfolding halted_def by blast
  from h(1) have m: "Call c \<in> set (fst (uploadBlobs gh fs 0 []))" by simp
  from uploadBlobs_attempt [OF m] obtain j t where c: "c = CreateBlob j t" "j < length fs"
    "\<forall>s < t. isl (createBlob gh j s)" by blast
  from h(2) c(1) have t: "t = 2" "createBlob gh j 2 = Inl e"
    by (auto simp: thrown_def split: if_splits sum.splits)
  with c(3) have "failsThrice gh j" by (simp add: failsThrice_def)
  with c t m show ?thesis by blast
qed

lemma calls_createOrGetRepository:
  "Call c \<in> set (fst (createOrGetRepository gh rn)) \<Longrightarrow> c = CreateForAuthenticatedUser \<or> c = ReposGet"
  by (auto simp: createOrGetRepository_def fst_catch fst_bind snd_bind split: sum.splits if_splits)

text \<open>
  Claim C5. The uploads of a batch, at most five, are all started before any answer
  arrives; when the upload phase succeeds its batches are those that start every five
  files, each followed by its status. No
  file is uploaded by two batches, and each file is tried at most three times in the whole
  upload phase, the next time 1000 ms after a failure and only then.
  Whatever the order in which the answers arrive: an upload that fails twice and then
  succeeds returns its blob, and a batch in which no upload fails three times completes
  and emits nothing, so no \<open>error\<close> status; an upload that fails three times throws the
  third error, and when the deployment has reached the upload phase it then fails with
  the third error of such an upload, the \<open>error\<close> status is its last action, and it has
  issued no request of a later phase.
\<close>

theorem blob_upload_retry:
  "take (min 5 (length fs - i)) (fst (uploadBatch gh fs i))
     = map (\<lambda>j. Call (CreateBlob j 0)) [i ..< min (i + 5) (length fs)] \<and>
   (\<forall>j t. Call (CreateBlob j t) \<in> set (fst (uploadBatch gh fs i)) \<longrightarrow>
      i \<le> j \<and> j < i + 5 \<and> j < length fs \<and> t < 3 \<and> (\<forall>s < t. isl (createBlob gh j s))) \<and>
   length (filter (attemptOf k) (fst (uploadBlobs gh fs 0 []))) \<le> 3 \<and>
   (\<not> failed (uploadBlobs gh fs 0 []) \<longrightarrow>
      fst (uploadBlobs gh fs 0 [])
        = concat (map (\<lambda>b. fst (uploadBatch gh fs (5 * b))
                             @ [Emit (uploaded (min (5 * b + 5) (length fs)) (length fs))])
                      [0 ..< (length fs + 4) div 5])) \<and>
   (createBlob gh k 0 = Inl e0 \<and> createBlob gh k 1 = Inl e1 \<and> createBlob gh k 2 = Inr sha \<longrightarrow>
      uploadWithRetry gh k 3 =
        ([Call (CreateBlob k 0), Delay 1000, Call (CreateBlob k 1), Delay 1000, Call (CreateBlob k 2)],
         Inr (Some sha))) \<and>
   (createBlob gh k 0 = Inl e0 \<and> createBlob gh k 1 = Inl e1 \<and> createBlob gh k 2 = Inl e2 \<longrightarrow>
      uploadWithRetry gh k 3 =
        ([Call (CreateBlob k 0), Delay 1000, Call (CreateBlob k 1), Delay 1000, Call (CreateBlob k 2)],
         Inl e2)) \<and>
   ((\<forall>j \<in> {i ..< min (i + 5) (length fs)}. \<not> failsThrice gh j) \<longrightarrow>
      \<not> failed (uploadBatch gh fs i) \<and> events (uploadBatch gh fs i) = []) \<and>
   (\<not> isl (getAuthenticated gh) \<and> \<not> repositoryFails gh
      \<and> k < length (prepareFiles (files analysis) patches customDomain) \<and> failsThrice gh k \<longrightarrow>
      failed (deployZipToGitHub gh repoName analysis customDomain patches) \<and>
      (\<exists>pre e j. fst (deployZipToGitHub gh repoName analysis customDomain patches)
                    = pre @ [Emit (failedStatus e)]
         \<and> snd (deployZipToGitHub gh repoName analysis customDomain patches) = Inl e
         \<and> j < length (prepareFiles (files analysis) patches customDomain)
         \<and> failsThrice gh j \<and> createBlob gh j 2 = Inl e \<and> Call (CreateBlob j 2) \<in> set pre
         \<and> (\<forall>c. Call c \<in> set pre \<longrightarrow> \<not> afterUploads c)))"
proof (intro conjI impI allI)
  show "take (min 5 (length fs - i)) (fst (uploadBatch gh fs i))
     = map (\<lambda>j. Call (CreateBlob j 0)) [i ..< min (i + 5) (length fs)]"
    by (rule uploadBatch_starts)
  show "length (filter (attemptOf k) (fst (uploadBlobs gh fs 0 []))) \<le> 3"
    using uploadBlobs_attempts [of k gh fs 0 "[]"] by simp
  show "fst (uploadBlobs gh fs 0 [])
        = concat (map (\<lambda>b. fst (uploadBatch gh fs (5 * b))
                             @ [Emit (uploaded (min (5 * b + 5) (length fs)) (length fs))])
                      [0 ..< (length fs + 4) div 5])"
    if "\<not> failed (uploadBlobs gh fs 0 [])"
    using that by (intro uploadBlobs_batches) simp_all
  show "uploadWithRetry gh k 3 =
        ([Call (CreateBlob k 0), Delay 1000, Call (CreateBlob k 1), Delay 1000, Call (CreateBlob k 2)],
         Inr (Some sha))"
    if "createBlob gh k 0 = Inl e0 \<and> createBlob gh k 1 = Inl e1 \<and> createBlob gh k 2 = Inr sha"
    using that by (simp add: uploadWithRetry_run)
  show "uploadWithRetry gh k 3 =
        ([Call (CreateBlob k 0), Delay 1000, Call (CreateBlob k 1), Delay 1000, Call (CreateBlob k 2)],
         Inl e2)"
    if "createBlob gh k 0 = Inl e0 \<and> createBlob gh k 1 = Inl e1 \<and> createBlob gh k 2 = Inl e2"
    using that by (simp add: uploadWithRetry_run)
  show "\<not> failed (uploadBatch gh fs i)"
    if "\<forall>j \<in> {i ..< min (i + 5) (length fs)}. \<not> failsThrice gh j"
    using that by (simp add: failed_uploadBatch BATCH_SIZE_def)
  show "events (uploadBatch gh fs i) = []"
    by (rule events_uploadBatch)
next
  fix j t
  assume a: "Call (CreateBlob j t) \<in> set (fst (uploadBatch gh fs i))"
  note r = uploadBatch_attempt [OF a]
  from r show "i \<le> j" by simp
  from r show "j < i + 5" by simp
  from r show "j < length fs" by simp
  from r show "t < 3" by simp
  fix s
  assume "s < t"
  with r show "isl (createBlob gh j s)" by simp
next
  assume h: "\<not> isl (getAuthenticated gh) \<and> \<not> repositoryFails gh
      \<and> k < length (prepareFiles (files analysis) patches customDomain) \<and> failsThrice gh k"
  let ?D = "deployZipToGitHub gh repoName analysis customDomain patches"
  from h show f: "failed ?D"
    unfolding deployZipToGitHub_def failed_reportFailure failed_gitHubBody by blast
  let ?fs = "prepareFiles (files analysis) patches customDomain"
  let ?B = "gitHubBody gh repoName analysis customDomain patches"
  from h obtain owner where o: "getAuthenticated gh = Inr owner"
    by (cases "getAuthenticated gh") auto
  from h have "\<not> failed (createOrGetRepository gh repoName)" by simp
  then obtain b where b: "snd (createOrGetRepository gh repoName) = Inr b"
    by (cases "snd (createOrGetRepository gh repoName)") (auto simp: failed_def)
  obtain l t where r: "snd (readHead gh) = Inr (l, t)"
    using failed_total(2) [of gh] by (cases "snd (readHead gh)") (auto simp: failed_def)
  from h have u: "failed (uploadBlobs gh ?fs 0 [])"
    by (auto simp: failed_uploadBlobs)
  then obtain e where e: "snd (uploadBlobs gh ?fs 0 []) = Inl e"
    by (cases "snd (uploadBlobs gh ?fs 0 [])") (auto simp: failed_def)
  from uploadBlobs_rejected [OF e] obtain j where j: "j < length ?fs" "failsThrice gh j"
    "createBlob gh j 2 = Inl e" "Call (CreateBlob j 2) \<in> set (fst (uploadBlobs gh ?fs 0 []))"
    by blast
  have tr: "fst ?B =
      ([Emit (info ''Authenticating...''), Call GetAuthenticated,
        Emit (success (''Authenticated as '' @ owner)),
        Emit (info (''Setting up repository '' @ [dq] @ repoName @ [dq] @ ''...''))]
       @ fst (createOrGetRepository gh repoName) @ fst (prepare analysis patches customDomain)
       @ fst (readHead gh) @ [Emit (info ''Uploading files...'')])
      @ fst (uploadBlobs gh ?fs 0 [])"
    by (simp add: gitHubBody_def fst_bind snd_bind o b r e)
  have sn: "snd ?B = Inl e"
    by (simp add: gitHubBody_def snd_bind o b r e)
  from tr j(4) have m: "Call (CreateBlob j 2) \<in> set (fst ?B)" by simp
  have early: "\<not> afterUploads c" if "Call c \<in> set (fst ?B)" for c
  proof -
    from that tr have "c = GetAuthenticated
        \<or> Call c \<in> set (fst (createOrGetRepository gh repoName))
        \<or> Call c \<in> set (fst (prepare analysis patches customDomain))
        \<or> Call c \<in> set (fst (readHead gh))
        \<or> Call c \<in> set (fst (uploadBlobs gh ?fs 0 []))"
      by auto
    then show ?thesis
      using calls_createOrGetRepository [of c gh repoName] calls_prepare [of c analysis patches customDomain]
        calls_readHead [of c gh] uploadBlobs_attempt [of c gh ?fs 0 "[]"]
      by auto
  qed
  from sn have "fst ?D = fst ?B @ [Emit (failedStatus e)] \<and> snd ?D = Inl e"
    by (simp add: deployZipToGitHub_def reportFailure_failed)
  with j m early
  show "\<exists>pre e j. fst ?D = pre @ [Emit (failedStatus e)] \<and> snd ?D = Inl e
         \<and> j < length ?fs \<and> failsThrice gh j \<and> createBlob gh j 2 = Inl e
         \<and> Call (CreateBlob j 2) \<in> set pre \<and> (\<forall>c. Call c \<in> set pre \<longrightarrow> \<not> afterUploads c)"
    by blast
qed

theorem blob_upload_retry_witness:
  "uploadWithRetry (okGitHub\<lparr>createBlob := (\<lambda>k a. if a < 2 then Inl (httpError 502) else Inr ''b'')\<rparr>) 0 3 =
     ([Call (CreateBlob 0 0), Delay 1000, Call (CreateBlob 0 1), Delay 1000, Call (CreateBlob 0 2)],
      Inr (Some ''b'')) \<and>
   \<not> failed (uploadBatch (okGitHub\<lparr>createBlob := (\<lambda>k a. if a < 2 then Inl (httpError 502) else Inr ''b'')\<rparr>)
       (prepareFiles (files sampleAnalysis) [] None) 0) \<and>
   Call (CreateBlob 0 2)
     \<in> set (fst (uploadBatch (okGitHub\<lparr>createBlob := (\<lambda>k a. if a < 2 then Inl (httpError 502) else Inr ''b'')\<rparr>)
         (prepareFiles (files sampleAnalysis) [] None) 0)) \<and>
   isl (createBlob (okGitHub\<lparr>createBlob := (\<lambda>k a. if a < 2 then Inl (httpError 502) else Inr ''b'')\<rparr>) 0 1) \<and>
   fst (uploadBlobs (okGitHub\<lparr>createBlob := (\<lambda>k a. if a < 2 then Inl (httpError 502) else Inr ''b'')\<rparr>)
       (prepareFiles (files sampleAnalysis) [] None) 0 [])
     = fst (uploadBatch (okGitHub\<lparr>createBlob := (\<lambda>k a. if a < 2 then Inl (httpError 502) else Inr ''b'')\<rparr>)
         (prepareFiles (files sampleAnalysis) [] None) 0) @ [Emit (uploaded 1 1)] \<and>
   uploadWithRetry (okGitHub\<lparr>createBlob := (\<lambda>k a. Inl (httpError 502))\<rparr>) 0 3 =
     ([Call (CreateBlob 0 0), Delay 1000, Call (CreateBlob 0 1), Delay 1000, Call (CreateBlob 0 2)],
      Inl (httpError 502)) \<and>
   failed (deployZipToGitHub (okGitHub\<lparr>createBlob := (\<lambda>k a. Inl (httpError 502))\<rparr>) ''site'' sampleAnalysis None []) \<and>
   (\<exists>pre e j.
      fst (deployZipToGitHub (okGitHub\<lparr>createBlob := (\<lambda>k a. Inl (httpError 502))\<rparr>) ''site'' sampleAnalysis None [])
        = pre @ [Emit (failedStatus e)] \<and>
      snd (deployZipToGitHub (okGitHub\<lparr>createBlob := (\<lambda>k a. Inl (httpError 502))\<rparr>) ''site'' sampleAnalysis None [])
        = Inl e \<and>
      Call (CreateBlob j 2) \<in> set pre)"
proof -
  let ?g1 = "okGitHub\<lparr>createBlob := (\<lambda>k a. if a < 2 then Inl (httpError 502) else Inr ''b'')\<rparr>"
  let ?g2 = "okGitHub\<lparr>createBlob := (\<lambda>k a. Inl (httpError 502))\<rparr>"
  let ?fs = "prepareFiles (files sampleAnalysis) [] None"
  note T1 = blob_upload_retry [where gh = ?g1 and k = 0 and ?e0.0 = "httpError 502" and ?e1.0 = "httpError 502"
      and sha = "''b''" and i = 0 and fs = ?fs]
  note T2 = blob_upload_retry [where gh = ?g2 and k = 0 and ?e0.0 = "httpError 502" and ?e1.0 = "httpError 502"
      and ?e2.0 = "httpError 502" and analysis = sampleAnalysis and patches = "[]" and customDomain = None
      and repoName = "''site''"]
  have l: "length ?fs = 1"
    by (simp add: prepareFiles_def sampleAnalysis_def given_def)
  have a1: "createBlob ?g1 0 0 = Inl (httpError 502) \<and> createBlob ?g1 0 1 = Inl (httpError 502)
      \<and> createBlob ?g1 0 2 = Inr ''b''"
    by simp
  have b1: "\<forall>j \<in> {0 ..< min (0 + 5) (length ?fs)}. \<not> failsThrice ?g1 j"
    by (simp add: failsThrice_def)
  have a2: "createBlob ?g2 0 0 = Inl (httpError 502) \<and> createBlob ?g2 0 1 = Inl (httpError 502)
      \<and> createBlob ?g2 0 2 = Inl (httpError 502)"
    by simp
  have b2: "\<not> isl (getAuthenticated ?g2) \<and> \<not> repositoryFails ?g2
      \<and> 0 < length (prepareFiles (files sampleAnalysis) [] None) \<and> failsThrice ?g2 0"
    by (simp add: okGitHub_def repositoryFails_def failsThrice_def prepareFiles_def sampleAnalysis_def given_def)
  from T1 a1 have r1: "uploadWithRetry ?g1 0 3 =
     ([Call (CreateBlob 0 0), Delay 1000, Call (CreateBlob 0 1), Delay 1000, Call (CreateBlob 0 2)],
      Inr (Some ''b''))"
    by blast
  from T1 b1 have r2: "\<not> failed (uploadBatch ?g1 ?fs 0)"
    by blast
  from T1 have "take (min 5 (length ?fs - 0)) (fst (uploadBatch ?g1 ?fs 0))
      = map (\<lambda>j. Call (CreateBlob j 0)) [0 ..< min (0 + 5) (length ?fs)]"
    by (rule conjunct1)
  then have st: "take 1 (fst (uploadBatch ?g1 ?fs 0)) = [Call (CreateBlob 0 0)]"
    unfolding l by simp
  have m: "Call (CreateBlob 0 2) \<in> set (fst (uploadBatch ?g1 ?fs 0))"
    by code_simp
  from T1 m have r3: "isl (createBlob ?g1 0 1)"
    by (simp del: One_nat_def)
  have nf: "\<not> failed (uploadBlobs ?g1 ?fs 0 [])"
    by (simp add: failed_uploadBlobs failsThrice_def)
  from T1 nf have "fst (uploadBlobs ?g1 ?fs 0 [])
        = concat (map (\<lambda>b. fst (uploadBatch ?g1 ?fs (5 * b))
                             @ [Emit (uploaded (min (5 * b + 5) (length ?fs)) (length ?fs))])
                      [0 ..< (length ?fs + 4) div 5])"
    by blast
  then have r4: "fst (uploadBlobs ?g1 ?fs 0 []) = fst (uploadBatch ?g1 ?fs 0) @ [Emit (uploaded 1 1)]"
    unfolding l by simp
  from T2 a2 have r5: "uploadWithRetry ?g2 0 3 =
     ([Call (CreateBlob 0 0), Delay 1000, Call (CreateBlob 0 1), Delay 1000, Call (CreateBlob 0 2)],
      Inl (httpError 502))"
    by blast
  from T2 b2 have r6: "failed (deployZipToGitHub ?g2 ''site'' sampleAnalysis None []) \<and>
   (\<exists>pre e j.
      fst (deployZipToGitHub ?g2 ''site'' sampleAnalysis None []) = pre @ [Emit (failedStatus e)] \<and>
      snd (deployZipToGitHub ?g2 ''site'' sampleAnalysis None []) = Inl e \<and>
      Call (CreateBlob j 2) \<in> set pre)"
    by blast
  from r1 r2 m r3 r4 r5 r6 show ?thesis by blast
qed


section \<open>Deployment: the prepared files\<close>

text \<open>
  \<open>prepareFiles\<close> folds \<open>applyPatch\<close> over the patches, starting from the materialised
  manifest: a patch replaces the content of the first file of its path, or is pushed at the
  end. \<open>overlaid\<close> is the result of that fold.
\<close>

lemma findIndex_None: "findIndex P xs = None \<longleftrightarrow> (\<forall>x \<in> set xs. \<not> P x)"
  by (induction xs) auto

lemma findIndex_Some:
  "findIndex P xs = Some i \<Longrightarrow> i < length xs \<and> P (xs ! i)"
  by (induction xs arbitrary: i) (auto split: if_splits)

lemma applyPatch_paths:
  "map u_path (applyPatch ov p) =
     (if p_path p \<in> set (map u_path ov) then map u_path ov else map u_path ov @ [p_path p])"
proof (cases "findIndex (\<lambda>f. u_path f = p_path p) ov")
  case None
  then have "p_path p \<notin> set (map u_path ov)" by (auto simp: findIndex_None)
  with None show ?thesis by (simp add: applyPatch_def)
next
  case (Some i)
  from findIndex_Some [OF Some] have i: "i < length ov" "u_path (ov ! i) = p_path p" by simp_all
  then have "p_path p \<in> set (map u_path ov)" by (metis length_map nth_map nth_mem)
  moreover have "map u_path (ov[i := (ov ! i)\<lparr>u_content := p_content p\<rparr>]) = map u_path ov"
    using i by (simp add: map_update list_update_same_conv)
  ultimately show ?thesis using Some by (simp add: applyPatch_def)
qed

lemma applyPatch_member:
  assumes d: "distinct (map u_path ov)" and f: "f \<in> set (applyPatch ov p)"
  shows "if u_path f = p_path p then u_content f = p_content p else f \<in> set ov"
proof (cases "findIndex (\<lambda>f. u_path f = p_path p) ov")
  case None
  then have "\<forall>x \<in> set ov. u_path x \<noteq> p_path p" by (simp add: findIndex_None)
  with None f show ?thesis by (auto simp: applyPatch_def)
next
  case (Some i)
  from findIndex_Some [OF Some] have i: "i < length ov" "u_path (ov ! i) = p_path p" by simp_all
  from Some f have "f \<in> set (ov[i := (ov ! i)\<lparr>u_content := p_content p\<rparr>])"
    by (simp add: applyPatch_def)
  then obtain j where j: "j < length ov" "f = (ov[i := (ov ! i)\<lparr>u_content := p_content p\<rparr>]) ! j"
    by (auto simp: in_set_conv_nth)
  show ?thesis
  proof (cases "j = i")
    case True
    with i j show ?thesis by simp
  next
    case False
    with j have fj: "f = ov ! j" by simp
    from d i j False have "u_path (ov ! j) \<noteq> u_path (ov ! i)"
      by (metis distinct_conv_nth length_map nth_map)
    with fj i j show ?thesis by simp
  qed
qed

lemma lastPatch_snoc:
  "lastPatch q (ps @ [p]) = (if p_path p = q then Some p else lastPatch q ps)"
  by (simp add: lastPatch_def)

lemma overlaid_snoc: "overlaid fs (ps @ [p]) = applyPatch (overlaid fs ps) p"
  by (simp add: overlaid_def)

lemma overlaid_paths:
  "\<exists>new. map u_path (overlaid fs ps) = map f_path fs @ new \<and> set new \<subseteq> p_path ` set ps
     \<and> p_path ` set ps \<subseteq> set (map f_path fs @ new)"
proof (induction ps rule: rev_induct)
  case Nil
  show ?case by (simp add: overlaid_def materialize_def comp_def)
next
  case (snoc p ps)
  then obtain new where n: "map u_path (overlaid fs ps) = map f_path fs @ new"
    "set new \<subseteq> p_path ` set ps" "p_path ` set ps \<subseteq> set (map f_path fs @ new)" by blast
  show ?case
  proof (cases "p_path p \<in> set (map u_path (overlaid fs ps))")
    case True
    with n show ?thesis
      by (intro exI [of _ new]) (auto simp: overlaid_snoc applyPatch_paths)
  next
    case False
    with n show ?thesis
      by (intro exI [of _ "new @ [p_path p]"]) (auto simp: overlaid_snoc applyPatch_paths)
  qed
qed

lemma overlaid_distinct:
  "distinct (map f_path fs) \<Longrightarrow> distinct (map u_path (overlaid fs ps))"
proof (induction ps rule: rev_induct)
  case Nil
  then show ?case by (simp add: overlaid_def materialize_def comp_def)
next
  case (snoc p ps)
  then show ?case by (simp add: overlaid_snoc applyPatch_paths)
qed

lemma overlaid_content:
  assumes "distinct (map f_path fs)" and "f \<in> set (overlaid fs ps)"
  shows "case lastPatch (u_path f) ps of
           Some pt \<Rightarrow> u_content f = p_content pt
         | None \<Rightarrow> f \<in> set (map materialize fs)"
  using assms(2)
proof (induction ps arbitrary: f rule: rev_induct)
  case Nil
  then show ?case by (simp add: overlaid_def lastPatch_def)
next
  case (snoc p ps)
  from applyPatch_member [OF overlaid_distinct [OF assms(1)], of f ps p] snoc.prems
  have m: "if u_path f = p_path p then u_content f = p_content p else f \<in> set (overlaid fs ps)"
    by (simp add: overlaid_snoc)
  show ?case
  proof (cases "u_path f = p_path p")
    case True
    with m show ?thesis by (simp add: lastPatch_snoc)
  next
    case False
    with m have "f \<in> set (overlaid fs ps)" by simp
    from snoc.IH [OF this] False show ?thesis by (simp add: lastPatch_snoc)
  qed
qed

lemma prepareFiles_overlaid:
  "prepareFiles fs ps cd = overlaid fs ps @ (if given cd then [cnameFile cd] else [])"
  by (simp add: prepareFiles_def overlaid_def Let_def)

text \<open>
  The paths of a manifest are distinct as soon as the names of the archive are (they are the
  keys of one object): removing the common root keeps distinct names distinct.
\<close>

lemma analyzeZip_distinct_paths:
  assumes "distinct (map relativePath (rawFilesOf entries))"
  shows "distinct (map f_path (files (analyzeZip entries)))"
proof -
  let ?raws = "rawFilesOf entries"
  let ?cp = "commonPrefix (map relativePath ?raws)"
  let ?kept = "filter (\<lambda>r. ignoreReason (finalPathOf ?cp r) = []) ?raws"
  have p: "map f_path (files (analyzeZip entries)) = map (finalPathOf ?cp) ?kept"
    by (simp add: analyzeZip_files scanZip_def Let_def scan_paths initialScan_def)
  from assms have d: "distinct (map relativePath ?kept)" by (rule distinct_map_filter)
  have inj: "inj_on (finalPathOf ?cp) (set ?kept)"
  proof (rule inj_onI)
    fix a b assume a: "a \<in> set ?kept" and b: "b \<in> set ?kept"
      and e: "finalPathOf ?cp a = finalPathOf ?cp b"
    from a b have "startsWith (relativePath a) ?cp" "startsWith (relativePath b) ?cp"
      by (auto intro!: commonPrefix_all)
    then have "relativePath a = ?cp @ drop (length ?cp) (relativePath a)"
      "relativePath b = ?cp @ drop (length ?cp) (relativePath b)"
      by (metis append_take_drop_id startsWith_def)+
    with e have "relativePath a = relativePath b"
      by (auto simp: finalPathOf_def split: if_splits)
    with d a b show "a = b" by (meson distinct_map inj_onD)
  qed
  from d have "distinct ?kept" by (simp add: distinct_map)
  with inj show ?thesis unfolding p by (simp add: distinct_map)
qed

lemma fixAbsolutePaths_paths:
  "map f_path (files (fixAbsolutePaths a)) = map f_path (files a)"
  by (simp add: fixAbsolutePaths_def fixFile_def comp_def)

text \<open>
  Claim C3. For a manifest of distinct paths, the files that \<open>deployZipToGitHub\<close> uploads are
  the overlaid manifest, followed by the \<open>CNAME\<close> file when a custom domain is given (a
  non-empty string). The overlaid manifest keeps the manifest's paths in their places, holds
  no path twice, holds the path of every patch, a path that no manifest file has being
  appended after the manifest; a file whose path is patched has the content of the patch
  (the last one of that path), and every other file is a manifest file unchanged.
\<close>

theorem patches_override_manifest:
  assumes "distinct (map f_path fs)"
  shows "prepareFiles fs patches customDomain
           = overlaid fs patches @ (if given customDomain then [cnameFile customDomain] else []) \<and>
         map u_path (take (length fs) (overlaid fs patches)) = map f_path fs \<and>
         distinct (map u_path (overlaid fs patches)) \<and>
         (\<forall>pt \<in> set patches. p_path pt \<in> set (map u_path (overlaid fs patches))) \<and>
         (\<forall>pt \<in> set patches. p_path pt \<notin> set (map f_path fs) \<longrightarrow>
            p_path pt \<in> set (map u_path (drop (length fs) (overlaid fs patches)))) \<and>
         (\<forall>f \<in> set (overlaid fs patches).
            case lastPatch (u_path f) patches of
              Some pt \<Rightarrow> u_content f = p_content pt
            | None \<Rightarrow> f \<in> set (map materialize fs))"
proof -
  obtain new where n: "map u_path (overlaid fs patches) = map f_path fs @ new"
    "set new \<subseteq> p_path ` set patches" "p_path ` set patches \<subseteq> set (map f_path fs @ new)"
    using overlaid_paths [of fs patches] by blast
  have t: "map u_path (take (length fs) (overlaid fs patches)) = map f_path fs"
    using n(1) by (metis append_eq_conv_conj length_map take_map)
  have dr: "map u_path (drop (length fs) (overlaid fs patches)) = new"
    using n(1) by (metis append_eq_conv_conj length_map drop_map)
  have p: "\<forall>pt \<in> set patches. p_path pt \<in> set (map u_path (overlaid fs patches))"
    using n by auto
  have q: "\<forall>pt \<in> set patches. p_path pt \<notin> set (map f_path fs) \<longrightarrow>
            p_path pt \<in> set (map u_path (drop (length fs) (overlaid fs patches)))"
    unfolding dr using n(3) by auto
  show ?thesis
    using t p q overlaid_distinct [OF assms] overlaid_content [OF assms]
    by (simp add: prepareFiles_overlaid)
qed

theorem patches_override_manifest_witness:
  "distinct (map f_path
     [\<lparr>f_path = ''index.html'', f_size = 2, f_entry = ''hi''\<rparr>,
      \<lparr>f_path = ''style.css'', f_size = 1, f_entry = ''x''\<rparr>]) \<and>
   prepareFiles
     [\<lparr>f_path = ''index.html'', f_size = 2, f_entry = ''hi''\<rparr>,
      \<lparr>f_path = ''style.css'', f_size = 1, f_entry = ''x''\<rparr>]
     [\<lparr>p_path = ''style.css'', p_content = ''y'', p_description = ''fix''\<rparr>,
      \<lparr>p_path = ''deploy.yml'', p_content = ''w'', p_description = ''workflow''\<rparr>]
     (Some ''example.com'')
   = [\<lparr>u_path = ''index.html'', u_content = ''hi'', u_mode = ''100644''\<rparr>,
      \<lparr>u_path = ''style.css'', u_content = ''y'', u_mode = ''100644''\<rparr>,
      \<lparr>u_path = ''deploy.yml'', u_content = ''w'', u_mode = ''100644''\<rparr>,
      \<lparr>u_path = ''CNAME'', u_content = ''example.com'', u_mode = ''100644''\<rparr>] \<and>
   distinct (map u_path (overlaid
     [\<lparr>f_path = ''index.html'', f_size = 2, f_entry = ''hi''\<rparr>,
      \<lparr>f_path = ''style.css'', f_size = 1, f_entry = ''x''\<rparr>]
     [\<lparr>p_path = ''style.css'', p_content = ''y'', p_description = ''fix''\<rparr>,
      \<lparr>p_path = ''deploy.yml'', p_content = ''w'', p_description = ''workflow''\<rparr>]))"
proof -
  let ?fs = "[\<lparr>f_path = ''index.html'', f_size = 2, f_entry = ''hi''\<rparr>,
      \<lparr>f_path = ''style.css'', f_size = 1, f_entry = ''x''\<rparr>]"
  let ?ps = "[\<lparr>p_path = ''style.css'', p_content = ''y'', p_description = ''fix''\<rparr>,
      \<lparr>p_path = ''deploy.yml'', p_content = ''w'', p_description = ''workflow''\<rparr>]"
  have d: "distinct (map f_path ?fs)" by simp
  have o: "overlaid ?fs ?ps =
     [\<lparr>u_path = ''index.html'', u_content = ''hi'', u_mode = ''100644''\<rparr>,
      \<lparr>u_path = ''style.css'', u_content = ''y'', u_mode = ''100644''\<rparr>,
      \<lparr>u_path = ''deploy.yml'', u_content = ''w'', u_mode = ''100644''\<rparr>]"
    by (simp add: overlaid_def applyPatch_def materialize_def)
  have g: "given (Some ''example.com'')" by (simp add: given_def)
  note T = patches_override_manifest [OF d, of ?ps "Some ''example.com''"]
  from T have "prepareFiles ?fs ?ps (Some ''example.com'')
      = overlaid ?fs ?ps @ (if given (Some ''example.com'') then [cnameFile (Some ''example.com'')] else [])"
    by (rule conjunct1)
  with o g have 1: "prepareFiles ?fs ?ps (Some ''example.com'') =
     [\<lparr>u_path = ''index.html'', u_content = ''hi'', u_mode = ''100644''\<rparr>,
      \<lparr>u_path = ''style.css'', u_content = ''y'', u_mode = ''100644''\<rparr>,
      \<lparr>u_path = ''deploy.yml'', u_content = ''w'', u_mode = ''100644''\<rparr>,
      \<lparr>u_path = ''CNAME'', u_content = ''example.com'', u_mode = ''100644''\<rparr>]"
    by (simp add: cnameFile_def)
  from T have 2: "distinct (map u_path (overlaid ?fs ?ps))"
    by (rule conjunct1 [OF conjunct2 [OF conjunct2]])
  from d 1 2 show ?thesis by (intro conjI)
qed


section \<open>The apply-fix transform applied twice\<close>

text \<open>
  The expression of \<open>fixAbsolutePaths\<close> matches exactly the texts made of an attribute name,
  \<open>=\<close>, a quote, \<open>/\<close>, a path without quotes that does not start with \<open>/\<close>, and a quote.
\<close>

lemma lower_fixed:
  "lower (CHR 0x22) = CHR 0x22" "lower (CHR 0x27) = CHR 0x27" "lower CHR ''='' = CHR ''=''"
  "lower CHR ''/'' = CHR ''/''" "lower CHR ''.'' = CHR ''.''"
  by code_simp+

lemma lower_letters:
  "lower CHR ''s'' = CHR ''s''" "lower CHR ''r'' = CHR ''r''" "lower CHR ''c'' = CHR ''c''"
  "lower CHR ''h'' = CHR ''h''" "lower CHR ''e'' = CHR ''e''" "lower CHR ''f'' = CHR ''f''"
  by code_simp+

lemma map_lower_literals:
  "map lower ''src'' = ''src''" "map lower ''href'' = ''href''"
  by code_simp+

lemma matchAlt_attr:
  assumes "matchAlt True [''src'', ''href''] s = Some (a, s1)"
  shows "attrName a"
proof -
  from assms have "map lower a = map lower ''src'' \<or> map lower a = map lower ''href''"
    unfolding matchAlt_def by (auto simp del: list.map split: if_splits)
  then show ?thesis unfolding attrName_def map_lower_literals .
qed

lemma attrName_chars:
  assumes "attrName a" "c \<in> set a"
  shows "\<not> isQuote c \<and> c \<noteq> CHR ''='' \<and> c \<noteq> CHR ''/''"
proof -
  from assms(2) have "lower c \<in> set (map lower a)" by simp
  with assms(1) have "lower c \<in> set ''src'' \<or> lower c \<in> set ''href''"
    unfolding attrName_def by metis
  with lower_fixed show ?thesis
    by (auto simp: isQuote_def dq_def sq_def)
qed

lemma not_quote: "\<not> isQuote CHR ''=''" "\<not> isQuote CHR ''/''" "\<not> isQuote CHR ''.''"
  by (simp_all add: isQuote_def dq_def sq_def)

lemma attrName_eq_chars: "attrName a \<Longrightarrow> \<forall>c \<in> set (a @ ''=''). \<not> isQuote c"
  using attrName_chars not_quote by auto

lemma attrName_length:
  assumes "attrName a"
  shows "length a = 3 \<or> length a = 4"
proof -
  from assms have "length (map lower a) = 3 \<or> length (map lower a) = 4"
    unfolding attrName_def by auto
  then show ?thesis by simp
qed

lemma attrName_not_nested:
  assumes "attrName a'" "attrName (c # u @ a')"
  shows False
proof -
  from attrName_length [OF assms(1)] attrName_length [OF assms(2)]
  have u: "u = []" and l: "length a' = 3" by auto
  from l assms(1) have s: "map lower a' = ''src''" unfolding attrName_def by auto
  from assms(2) u l have "map lower (c # a') = ''href''" unfolding attrName_def by auto
  with s show False by simp
qed

lemma first_quote_unique:
  assumes "xs @ q # ys = xs' @ q' # ys'" "isQuote q" "isQuote q'"
    "\<forall>c \<in> set xs. \<not> isQuote c" "\<forall>c \<in> set xs'. \<not> isQuote c"
  shows "xs = xs' \<and> q = q' \<and> ys = ys'"
  using assms
proof (induction xs arbitrary: xs')
  case Nil
  then show ?case by (cases xs') auto
next
  case (Cons x xs)
  then show ?case by (cases xs') auto
qed

lemma only_quote_unique:
  assumes "xs @ q # ys = xs' @ q' # ys'" "isQuote q"
    "\<forall>c \<in> set xs'. \<not> isQuote c" "\<forall>c \<in> set ys'. \<not> isQuote c"
  shows "xs = xs' \<and> ys = ys'"
  using assms
proof (induction xs arbitrary: xs')
  case Nil
  then show ?case by (cases xs') auto
next
  case (Cons x xs)
  show ?case
  proof (cases xs')
    case Nil
    with Cons.prems(1) have "ys' = xs @ q # ys" by simp
    with Cons.prems(2,4) show ?thesis by simp
  next
    case (Cons x' xs'')
    with Cons.prems Cons.IH [of xs''] show ?thesis by simp
  qed
qed

lemma absMatch_SomeD:
  assumes "absMatch s = Some (attr, q1, path, q2, rest)"
  shows "s = attr @ CHR ''='' # q1 # CHR ''/'' # path @ q2 # rest"
    and "attrName attr" and "isQuote q1" and "isQuote q2"
    and "\<forall>c \<in> set path. \<not> isQuote c" and "path = [] \<or> hd path \<noteq> CHR ''/''"
proof -
  from assms obtain a s1 where m: "matchAlt True [''src'', ''href''] s = Some (a, s1)"
    by (auto simp: absMatch_def split: option.splits)
  with assms obtain e sl s2
    where s1: "s1 = e # q1 # sl # s2" and c: "e = CHR ''=''" "sl = CHR ''/''" "a = attr"
      and q1: "isQuote q1" and la: "\<not> startsWith s2 ''/''"
      and t: "path = takeWhile (\<lambda>c. \<not> isQuote c) s2" and d: "dropWhile (\<lambda>c. \<not> isQuote c) s2 = q2 # rest"
    by (auto simp: absMatch_def split: list.splits if_splits)
  from t d have s2: "s2 = path @ q2 # rest" by (metis takeWhile_dropWhile_id)
  with matchAlt_rest [OF m] s1 c show "s = attr @ CHR ''='' # q1 # CHR ''/'' # path @ q2 # rest" by simp
  from matchAlt_attr [OF m] c show "attrName attr" by simp
  from q1 show "isQuote q1" .
  from d show "isQuote q2" by (metis hd_dropWhile list.sel(1) list.distinct(1))
  from t show "\<forall>c \<in> set path. \<not> isQuote c" by (auto dest: set_takeWhileD)
  from la s2 show "path = [] \<or> hd path \<noteq> CHR ''/''"
    by (cases path) (auto simp: startsWith_def)
qed

lemma matchAlt_first:
  "map lower (take (length x) s) = map lower x
   \<Longrightarrow> matchAlt True [x, y] s = Some (take (length x) s, drop (length x) s)"
  by (simp add: matchAlt_def)

lemma matchAlt_second:
  "map lower (take (length x) s) \<noteq> map lower x \<Longrightarrow> map lower (take (length y) s) = map lower y
   \<Longrightarrow> matchAlt True [x, y] s = Some (take (length y) s, drop (length y) s)"
  by (simp add: matchAlt_def)

lemma matchAlt_attrName:
  assumes "attrName a"
  shows "matchAlt True [''src'', ''href''] (a @ t) = Some (a, t)"
proof (cases "map lower a = ''src''")
  case True
  then have "length (map lower a) = length ''src''" by (rule arg_cong)
  then have l: "length a = length ''src''" by (simp only: length_map)
  then have td: "take (length ''src'') (a @ t) = a" "drop (length ''src'') (a @ t) = t" by simp_all
  from True have "map lower (take (length ''src'') (a @ t)) = map lower ''src''"
    by (simp only: td map_lower_literals)
  from matchAlt_first [OF this] show ?thesis by (simp only: td)
next
  case False
  with assms have h: "map lower a = ''href''" by (simp add: attrName_def)
  then have "length (map lower a) = length ''href''" by (rule arg_cong)
  then have l: "length a = length ''href''" by (simp only: length_map)
  then have td: "take (length ''href'') (a @ t) = a" "drop (length ''href'') (a @ t) = t" by simp_all
  from h have 2: "map lower (take (length ''href'') (a @ t)) = map lower ''href''"
    by (simp only: td map_lower_literals)
  from l have "take (length ''src'') (a @ t) = take (length ''src'') a" by simp
  then have "map lower (take (length ''src'') (a @ t)) = take (length ''src'') (map lower a)"
    by (simp only: take_map)
  with h have "map lower (take (length ''src'') (a @ t)) = take (length ''src'') ''href''"
    by (simp only:)
  then have 1: "map lower (take (length ''src'') (a @ t)) \<noteq> map lower ''src''"
    by (simp only: map_lower_literals) simp
  from matchAlt_second [OF 1 2] show ?thesis by (simp only: td)
qed

lemma absMatch_SomeI:
  assumes "attrName a" "isQuote q1" "isQuote q2" "\<forall>c \<in> set p. \<not> isQuote c"
    "p = [] \<or> hd p \<noteq> CHR ''/''"
  shows "absMatch (a @ CHR ''='' # q1 # CHR ''/'' # p @ q2 # r) \<noteq> None"
proof -
  from assms(4) have d: "dropWhile (\<lambda>c. \<not> isQuote c) (p @ q2 # r) = q2 # r"
    using assms(3) by (simp add: dropWhile_append2)
  from assms(3,5) have la: "\<not> startsWith (p @ q2 # r) ''/''"
    by (cases p) (auto simp: startsWith_def isQuote_def dq_def sq_def)
  from d la assms(2) show ?thesis
    by (simp add: absMatch_def matchAlt_attrName [OF assms(1)])
qed

text \<open>Every replacement is one character longer than the text it replaces.\<close>

lemma length_replacement: "length (replacement attr q1 path q2) = length attr + length path + 5"
  by (simp add: replacement_def Let_def)

lemma fixContent_length: "length s \<le> length (fixContent s)"
proof (induction s rule: fixContent.induct)
  case 1
  show ?case by simp
next
  case (2 c cs)
  show ?case
  proof (cases "absMatch (c # cs)")
    case None
    with 2 show ?thesis by simp
  next
    case (Some m)
    then obtain attr q1 path q2 rest where m: "absMatch (c # cs) = Some (attr, q1, path, q2, rest)"
      by (cases m) auto
    from absMatch_SomeD(1) [OF m] have "length (c # cs) = length attr + length path + 4 + length rest"
      by simp
    moreover from 2(2) m have "length rest \<le> length (fixContent rest)" by simp
    ultimately show ?thesis using m
      by (simp add: length_replacement)
  qed
qed

lemma fixContent_longer: "absTest s \<Longrightarrow> length s < length (fixContent s)"
proof (induction s rule: fixContent.induct)
  case 1
  then show ?case by simp
next
  case (2 c cs)
  show ?case
  proof (cases "absMatch (c # cs)")
    case None
    with 2 show ?thesis by simp
  next
    case (Some m)
    then obtain attr q1 path q2 rest where m: "absMatch (c # cs) = Some (attr, q1, path, q2, rest)"
      by (cases m) auto
    from absMatch_SomeD(1) [OF m] have "length (c # cs) = length attr + length path + 4 + length rest"
      by simp
    with fixContent_length [of rest] m show ?thesis
      by (simp add: length_replacement)
  qed
qed

lemma fixContent_same: "\<not> absTest s \<Longrightarrow> fixContent s = s"
proof (induction s rule: fixContent.induct)
  case 1
  show ?case by simp
next
  case (2 c cs)
  from 2(3) have n: "absMatch (c # cs) = None" and t: "\<not> absTest cs"
    by (cases "absMatch (c # cs)", simp_all)+
  from 2(1) [OF n t] n show ?case by simp
qed

text \<open>A second application: paths and warnings stay, a file changes when it is rewritten.\<close>

lemma fixFile_fixed: "fixFile f = f \<longleftrightarrow> \<not> rewritten f"
proof (cases "rewritten f")
  case True
  then have "length (f_entry f) < length (f_entry (fixFile f))"
    by (simp add: rewritten_def fixFile_def fixContent_longer)
  then have "fixFile f \<noteq> f" by auto
  with True show ?thesis by simp
next
  case False
  then show ?thesis by (auto simp: rewritten_def fixFile_def)
qed

lemma filter_warnings_idem:
  "warnings (fixAbsolutePaths (fixAbsolutePaths a)) = warnings (fixAbsolutePaths a)"
  by (simp add: fixAbsolutePaths_def)

lemma map_fixed: "map g xs = xs \<longleftrightarrow> (\<forall>x \<in> set xs. g x = x)"
  by (induction xs) auto

lemma fixAbsolutePaths_second_application:
  "map f_path (files (fixAbsolutePaths (fixAbsolutePaths a))) = map f_path (files (fixAbsolutePaths a)) \<and>
   warnings (fixAbsolutePaths (fixAbsolutePaths a)) = warnings (fixAbsolutePaths a) \<and>
   (fixAbsolutePaths (fixAbsolutePaths a) = fixAbsolutePaths a
      \<longleftrightarrow> \<not> list_ex rewritten (files (fixAbsolutePaths a)))"
proof -
  have "fixAbsolutePaths (fixAbsolutePaths a) = fixAbsolutePaths a
      \<longleftrightarrow> map fixFile (files (fixAbsolutePaths a)) = files (fixAbsolutePaths a)"
    (is "?L \<longleftrightarrow> ?R")
  proof
    assume ?L
    then have "files (fixAbsolutePaths (fixAbsolutePaths a)) = files (fixAbsolutePaths a)" by simp
    then show ?R by (simp add: fixAbsolutePaths_def)
  next
    assume r: ?R
    have "fixAbsolutePaths (fixAbsolutePaths a)
        = (fixAbsolutePaths a)\<lparr>files := map fixFile (files (fixAbsolutePaths a)),
             warnings := warnings (fixAbsolutePaths a)\<rparr>"
      by (simp add: fixAbsolutePaths_def)
    with r show ?L by simp
  qed
  then show ?thesis
    by (simp add: fixAbsolutePaths_paths filter_warnings_idem map_fixed fixFile_fixed list_ex_iff)
qed

text \<open>
  No new match starts before the first rewritten reference: up to its opening quote the
  content is unchanged, and a match reads up to the second quote after its start.
\<close>

lemma replacement_shape:
  "\<exists>q. isQuote q \<and> replacement a q1 p q2 = a @ CHR ''='' # q # CHR ''.'' # CHR ''/'' # p @ [q]"
  by (simp add: replacement_def Let_def isQuote_def)

lemma fixContent_shape:
  "fixContent s = s \<or>
   (\<exists>u a q q' Y Y'. s = u @ a @ CHR ''='' # q' # Y' \<and> fixContent s = u @ a @ CHR ''='' # q # Y
      \<and> attrName a \<and> isQuote q \<and> isQuote q')"
proof (induction s rule: fixContent.induct)
  case 1
  show ?case by simp
next
  case (2 c cs)
  show ?case
  proof (cases "absMatch (c # cs)")
    case None
    from 2(1) [OF None] show ?thesis
    proof
      assume "fixContent cs = cs"
      with None show ?thesis by simp
    next
      assume "\<exists>u a q q' Y Y'. cs = u @ a @ CHR ''='' # q' # Y' \<and> fixContent cs = u @ a @ CHR ''='' # q # Y
        \<and> attrName a \<and> isQuote q \<and> isQuote q'"
      then obtain u a q q' Y Y' where "cs = u @ a @ CHR ''='' # q' # Y'"
        "fixContent cs = u @ a @ CHR ''='' # q # Y" "attrName a" "isQuote q" "isQuote q'" by blast
      with None have "c # cs = (c # u) @ a @ CHR ''='' # q' # Y' \<and>
        fixContent (c # cs) = (c # u) @ a @ CHR ''='' # q # Y \<and> attrName a \<and> isQuote q \<and> isQuote q'"
        by simp
      then show ?thesis by blast
    qed
  next
    case (Some m)
    then obtain a q1 p q2 r where m: "absMatch (c # cs) = Some (a, q1, p, q2, r)"
      by (cases m) auto
    obtain q where q: "isQuote q" "replacement a q1 p q2 = a @ CHR ''='' # q # CHR ''.'' # CHR ''/'' # p @ [q]"
      using replacement_shape by blast
    from m q(2) have "fixContent (c # cs) = [] @ a @ CHR ''='' # q # (CHR ''.'' # CHR ''/'' # p @ [q] @ fixContent r)"
      by simp
    moreover from absMatch_SomeD(1) [OF m] have "c # cs = [] @ a @ CHR ''='' # q1 # (CHR ''/'' # p @ q2 # r)"
      by simp
    ultimately show ?thesis using absMatch_SomeD(2,3) [OF m] q(1) by blast
  qed
qed

lemma absMatch_fixContent_tail:
  assumes "absMatch (c # cs) = None"
  shows "absMatch (c # fixContent cs) = None"
proof (rule ccontr)
  assume "absMatch (c # fixContent cs) \<noteq> None"
  then obtain m where "absMatch (c # fixContent cs) = Some m" by auto
  then obtain a q1 p q2 r where m: "absMatch (c # fixContent cs) = Some (a, q1, p, q2, r)"
    by (cases m) auto
  note d = absMatch_SomeD [OF m]
  let ?W = "a @ CHR ''='' # q1 # CHR ''/'' # p"
  have W: "c # fixContent cs = ?W @ q2 # r" using d(1) by simp
  have match: "absMatch (?W @ q # t) \<noteq> None" if "isQuote q" for q t
    using absMatch_SomeI [OF d(2) d(3) that d(5) d(6), of t] by simp
  from fixContent_shape [of cs] show False
  proof
    assume "fixContent cs = cs"
    with m assms show False by simp
  next
    assume "\<exists>u a q q' Y Y'. cs = u @ a @ CHR ''='' # q' # Y' \<and> fixContent cs = u @ a @ CHR ''='' # q # Y
      \<and> attrName a \<and> isQuote q \<and> isQuote q'"
    then obtain u a' q q' Y Y' where s: "cs = u @ a' @ CHR ''='' # q' # Y'"
      and f: "fixContent cs = u @ a' @ CHR ''='' # q # Y"
      and a': "attrName a'" and q: "isQuote q" and q': "isQuote q'" by blast
    let ?X = "c # u @ a' @ ''=''"
    have cs: "c # cs = ?X @ q' # Y'" using s by simp
    from W f have "?X @ (q # Y) = ?W @ (q2 # r)" by simp
    then obtain us where "(?X = ?W @ us \<and> us @ q # Y = q2 # r) \<or> (?X @ us = ?W \<and> q # Y = us @ q2 # r)"
      unfolding append_eq_append_conv2 by blast
    then show False
    proof (elim disjE conjE)
      assume x: "?X = ?W @ us" and t: "us @ q # Y = q2 # r"
      show False
      proof (cases us)
        case Nil
        with x cs have "c # cs = ?W @ q' # Y'" by simp
        with match [OF q', of Y'] assms show False by simp
      next
        case (Cons y us')
        with t have "y = q2" by simp
        with x cs Cons have "c # cs = ?W @ q2 # (us' @ q' # Y')" by simp
        with match [OF d(4), of "us' @ q' # Y'"] assms show False by simp
      qed
    next
      assume x: "?X @ us = ?W" and t: "q # Y = us @ q2 # r"
      show False
      proof (cases us)
        case Nil
        with x cs have "c # cs = ?W @ q' # Y'" by simp
        with match [OF q', of Y'] assms show False by simp
      next
        case (Cons y us')
        with t have "y = q" by simp
        with x Cons have "(c # u @ a' @ ''='') @ q # us' = (a @ ''='') @ q1 # (CHR ''/'' # p)"
          by simp
        from only_quote_unique [OF this q attrName_eq_chars [OF d(2)]] d(5) not_quote
        have "c # u @ a' @ ''='' = a @ ''=''" by simp
        then have "a = c # u @ a'" by simp
        with d(2) a' attrName_not_nested show False by blast
      qed
    qed
  qed
qed

text \<open>
  A match that starts inside a replacement opens at its closing quote, so the rewritten path
  ends with an attribute name and \<open>=\<close>.
\<close>

lemma endsWith_append: "endsWith (xs @ p) p"
  by (simp add: endsWith_def)

lemma endsAttr_append:
  assumes "attrName a"
  shows "endsAttr (ws @ a @ ''='')"
proof -
  have "map lower (ws @ a @ ''='') = map lower ws @ map lower a @ ''=''"
    by (simp add: lower_fixed)
  with assms endsWith_append [of "map lower ws" "''src=''"] endsWith_append [of "map lower ws" "''href=''"]
  show ?thesis unfolding endsAttr_def attrName_def by auto
qed

lemma last_of_suffix: "v0 @ v = xs @ [x] \<Longrightarrow> v \<noteq> [] \<Longrightarrow> last v = x"
  by (metis last_appendR last_snoc)

lemma no_match_inside_replacement:
  assumes a: "attrName a" and q: "isQuote q" and p: "\<forall>c \<in> set p. \<not> isQuote c"
    and e: "\<not> endsAttr p"
    and v: "v0 @ v = a @ CHR ''='' # q # CHR ''.'' # CHR ''/'' # p @ [q]" and n: "v \<noteq> []"
  shows "absMatch (v @ T) = None"
proof (rule ccontr)
  assume "absMatch (v @ T) \<noteq> None"
  then obtain m where "absMatch (v @ T) = Some m" by auto
  then obtain a2 q1 p2 q2 r2 where m: "absMatch (v @ T) = Some (a2, q1, p2, q2, r2)"
    by (cases m) auto
  note d = absMatch_SomeD [OF m]
  from v have "v0 @ v = (a @ CHR ''='' # q # CHR ''.'' # CHR ''/'' # p) @ [q]" by simp
  from last_of_suffix [OF this n] have "last v = q" .
  with n have "q \<in> set v" by (metis last_in_set)
  with q have "\<exists>c \<in> set v. isQuote c" by blast
  then obtain vx qv vy where vs: "v = vx @ qv # vy" and qv: "isQuote qv"
    and vx: "\<forall>c \<in> set vx. \<not> isQuote c"
    by (metis split_list_first_prop)
  from d(1) vs have "vx @ qv # (vy @ T) = (a2 @ ''='') @ q1 # (CHR ''/'' # p2 @ q2 # r2)" by simp
  from first_quote_unique [OF this qv d(3) vx attrName_eq_chars [OF d(2)]]
  have vx2: "vx = a2 @ ''=''" and vy: "vy @ T = CHR ''/'' # p2 @ q2 # r2" by simp_all
  have dot: "vy \<noteq> CHR ''.'' # CHR ''/'' # p @ [q]" using vy by auto
  from v vs have "(v0 @ vx) @ (qv # vy) = (a @ ''='') @ (q # CHR ''.'' # CHR ''/'' # p @ [q])" by simp
  then obtain us where
    "(v0 @ vx = (a @ ''='') @ us \<and> us @ qv # vy = q # CHR ''.'' # CHR ''/'' # p @ [q]) \<or>
     ((v0 @ vx) @ us = a @ ''='' \<and> qv # vy = us @ q # CHR ''.'' # CHR ''/'' # p @ [q])"
    unfolding append_eq_append_conv2 by blast
  then show False
  proof (elim disjE conjE)
    assume x: "v0 @ vx = (a @ ''='') @ us" and t: "us @ qv # vy = q # CHR ''.'' # CHR ''/'' # p @ [q]"
    show False
    proof (cases us)
      case Nil
      with t dot show False by simp
    next
      case (Cons y us')
      with t have y: "y = q" and "us' @ qv # vy = (CHR ''.'' # CHR ''/'' # p) @ q # []" by simp_all
      from only_quote_unique [OF this(2) qv] p not_quote
      have us': "us' = CHR ''.'' # CHR ''/'' # p" by simp
      with x Cons y vx2 have "v0 @ (a2 @ ''='') = (a @ CHR ''='' # q # ''./'') @ p" by simp
      then obtain ws where
        "(v0 = (a @ CHR ''='' # q # ''./'') @ ws \<and> ws @ (a2 @ ''='') = p) \<or>
         (v0 @ ws = a @ CHR ''='' # q # ''./'' \<and> a2 @ ''='' = ws @ p)"
        unfolding append_eq_append_conv2 by blast
      then show False
      proof (elim disjE conjE)
        assume "ws @ (a2 @ ''='') = p"
        with endsAttr_append [OF d(2), of ws] e show False by simp
      next
        assume w1: "v0 @ ws = a @ CHR ''='' # q # ''./''" and w2: "a2 @ ''='' = ws @ p"
        show False
        proof (cases "ws = []")
          case True
          with w2 have "p = [] @ a2 @ ''=''" by simp
          with endsAttr_append [OF d(2), of "[]"] e show False by simp
        next
          case False
          from w1 have "v0 @ ws = (a @ CHR ''='' # q # ''.'') @ ''/''" by simp
          from last_of_suffix [OF this False] have "last ws = CHR ''/''" .
          with False have "CHR ''/'' \<in> set ws" by (metis last_in_set)
          then have "CHR ''/'' \<in> set (a2 @ ''='')" unfolding w2 by simp
          with attrName_chars [OF d(2)] show False by auto
        qed
      qed
    qed
  next
    assume x: "(v0 @ vx) @ us = a @ ''=''" and t: "qv # vy = us @ q # CHR ''.'' # CHR ''/'' # p @ [q]"
    show False
    proof (cases us)
      case Nil
      with t dot show False by simp
    next
      case (Cons y us')
      with t have "y = qv" by simp
      with Cons have "qv \<in> set ((v0 @ vx) @ us)" by simp
      then have "qv \<in> set (a @ ''='')" unfolding x .
      with attrName_eq_chars [OF a] qv show False by blast
    qed
  qed
qed

text \<open>Hence a content none of whose rewritten paths ends so holds no match once rewritten.\<close>

lemma absTest_appendD:
  "absTest (R @ T) \<Longrightarrow> (\<exists>v0 v. v0 @ v = R \<and> v \<noteq> [] \<and> absMatch (v @ T) \<noteq> None) \<or> absTest T"
proof (induction R)
  case Nil
  then show ?case by simp
next
  case (Cons x R)
  from Cons.prems have "absMatch ((x # R) @ T) \<noteq> None \<or> absTest (R @ T)" by simp
  then show ?case
  proof
    assume "absMatch ((x # R) @ T) \<noteq> None"
    then have "[] @ (x # R) = x # R \<and> x # R \<noteq> [] \<and> absMatch ((x # R) @ T) \<noteq> None" by simp
    then show ?thesis by blast
  next
    assume "absTest (R @ T)"
    from Cons.IH [OF this] show ?thesis
    proof
      assume "\<exists>v0 v. v0 @ v = R \<and> v \<noteq> [] \<and> absMatch (v @ T) \<noteq> None"
      then obtain v0 v where "v0 @ v = R" "v \<noteq> []" "absMatch (v @ T) \<noteq> None" by blast
      then have "(x # v0) @ v = x # R \<and> v \<noteq> [] \<and> absMatch (v @ T) \<noteq> None" by simp
      then show ?thesis by blast
    next
      assume "absTest T"
      then show ?thesis ..
    qed
  qed
qed

lemma fixContent_settled:
  "\<forall>p \<in> set (rewrittenPaths s). \<not> endsAttr p \<Longrightarrow> \<not> absTest (fixContent s)"
proof (induction s rule: fixContent.induct)
  case 1
  show ?case by simp
next
  case (2 c cs)
  show ?case
  proof (cases "absMatch (c # cs)")
    case None
    with 2(3) have "\<forall>p \<in> set (rewrittenPaths cs). \<not> endsAttr p" by simp
    from 2(1) [OF None this] have "\<not> absTest (fixContent cs)" .
    with absMatch_fixContent_tail [OF None] None show ?thesis by simp
  next
    case (Some m)
    then obtain a q1 p q2 r where m: "absMatch (c # cs) = Some (a, q1, p, q2, r)"
      by (cases m) auto
    with 2(3) have e: "\<not> endsAttr p" and rest: "\<forall>p \<in> set (rewrittenPaths r). \<not> endsAttr p"
      by simp_all
    from 2(2) m rest have ih: "\<not> absTest (fixContent r)" by simp
    obtain q where q: "isQuote q"
      "replacement a q1 p q2 = a @ CHR ''='' # q # CHR ''.'' # CHR ''/'' # p @ [q]"
      using replacement_shape by blast
    note d = absMatch_SomeD [OF m]
    have "\<not> absTest (replacement a q1 p q2 @ fixContent r)"
    proof
      assume "absTest (replacement a q1 p q2 @ fixContent r)"
      from absTest_appendD [OF this] ih obtain v0 v
        where v: "v0 @ v = replacement a q1 p q2" "v \<noteq> []" "absMatch (v @ fixContent r) \<noteq> None"
        by blast
      from v(1) q(2) have "v0 @ v = a @ CHR ''='' # q # CHR ''.'' # CHR ''/'' # p @ [q]" by simp
      from no_match_inside_replacement [OF d(2) q(1) d(5) e this v(2)] v(3) show False by simp
    qed
    with m show ?thesis by simp
  qed
qed

lemma fixFile_settled:
  assumes "\<forall>p \<in> set (rewrittenIn f). \<not> endsAttr p"
  shows "\<not> rewritten (fixFile f)"
proof (cases "rewritten f")
  case True
  with assms have "\<not> absTest (fixContent (f_entry f))"
    by (simp add: rewrittenIn_def fixContent_settled)
  with True show ?thesis by (simp add: rewritten_def fixFile_def)
next
  case False
  then have "fixFile f = f" by (simp add: fixFile_fixed)
  with False show ?thesis by simp
qed

text \<open>
  Claim C10, as amended. A second application of \<open>fixAbsolutePaths\<close> always returns the
  file paths and the warnings of the first, and it returns the first result unchanged
  exactly when no file of that result is rewritten again. This is so whenever no path that
  the first application rewrites ends with \<open>src=\<close> or \<open>href=\<close> (in any letter case): then
  paths, contents, sizes and warnings are identical after the second application.
\<close>

theorem fixAbsolutePaths_idempotent:
  "map f_path (files (fixAbsolutePaths (fixAbsolutePaths a))) = map f_path (files (fixAbsolutePaths a)) \<and>
   warnings (fixAbsolutePaths (fixAbsolutePaths a)) = warnings (fixAbsolutePaths a) \<and>
   (fixAbsolutePaths (fixAbsolutePaths a) = fixAbsolutePaths a
      \<longleftrightarrow> \<not> list_ex rewritten (files (fixAbsolutePaths a))) \<and>
   ((\<forall>f \<in> set (files a). \<forall>p \<in> set (rewrittenIn f). \<not> endsAttr p)
      \<longrightarrow> fixAbsolutePaths (fixAbsolutePaths a) = fixAbsolutePaths a)"
proof -
  note s = fixAbsolutePaths_second_application [of a]
  have "\<not> list_ex rewritten (files (fixAbsolutePaths a))"
    if "\<forall>f \<in> set (files a). \<forall>p \<in> set (rewrittenIn f). \<not> endsAttr p"
    using that by (simp add: fixAbsolutePaths_def list_ex_iff fixFile_settled)
  with s show ?thesis by blast
qed

theorem fixAbsolutePaths_idempotent_witness:
  "concat (map rewrittenIn (files (analyzeZip
     [\<lparr>relativePath = ''index.html'', dir = False, uncompressedSize = 29,
       content = ''<script src='' @ [dq] @ ''/a.js'' @ [dq] @ ''></script>''\<rparr>]))) = [''a.js''] \<and>
   \<not> endsAttr ''a.js'' \<and>
   files (fixAbsolutePaths (analyzeZip
     [\<lparr>relativePath = ''index.html'', dir = False, uncompressedSize = 29,
       content = ''<script src='' @ [dq] @ ''/a.js'' @ [dq] @ ''></script>''\<rparr>]))
     = [\<lparr>f_path = ''index.html'', f_size = 30,
         f_entry = ''<script src='' @ [dq] @ ''./a.js'' @ [dq] @ ''></script>''\<rparr>] \<and>
   fixAbsolutePaths (fixAbsolutePaths (analyzeZip
     [\<lparr>relativePath = ''index.html'', dir = False, uncompressedSize = 29,
       content = ''<script src='' @ [dq] @ ''/a.js'' @ [dq] @ ''></script>''\<rparr>]))
     = fixAbsolutePaths (analyzeZip
     [\<lparr>relativePath = ''index.html'', dir = False, uncompressedSize = 29,
       content = ''<script src='' @ [dq] @ ''/a.js'' @ [dq] @ ''></script>''\<rparr>])"
proof -
  let ?A = "analyzeZip
     [\<lparr>relativePath = ''index.html'', dir = False, uncompressedSize = 29,
       content = ''<script src='' @ [dq] @ ''/a.js'' @ [dq] @ ''></script>''\<rparr>]"
  have h: "concat (map rewrittenIn (files ?A)) = [''a.js'']"
    by code_simp
  have e: "\<not> endsAttr ''a.js''"
    by code_simp
  have f: "files (fixAbsolutePaths ?A)
     = [\<lparr>f_path = ''index.html'', f_size = 30,
         f_entry = ''<script src='' @ [dq] @ ''./a.js'' @ [dq] @ ''></script>''\<rparr>]"
    by code_simp
  have "\<forall>f \<in> set (files ?A). \<forall>p \<in> set (rewrittenIn f). \<not> endsAttr p"
  proof (intro ballI)
    fix f p
    assume "f \<in> set (files ?A)" "p \<in> set (rewrittenIn f)"
    then have "p \<in> set (concat (map rewrittenIn (files ?A)))" by auto
    then have "p = ''a.js''" unfolding h by simp
    then show "\<not> endsAttr p" using e by blast
  qed
  then have i: "fixAbsolutePaths (fixAbsolutePaths ?A) = fixAbsolutePaths ?A"
    by (rule mp [OF conjunct2 [OF conjunct2 [OF conjunct2 [OF fixAbsolutePaths_idempotent]]]])
  from h e f i show ?thesis by (intro conjI)
qed

text \<open>
  The claim as first stated fails: a rewritten reference starts with \<open>./\<close>, but where the
  rewritten path ends with \<open>href=\<close> its closing quote opens a reference that the first pass
  had read as the rest of the path. The second application rewrites that one.
\<close>

theorem fixAbsolutePaths_idempotent_counterexample:
  "map f_entry (files (fixAbsolutePaths (analyzeZip
     [\<lparr>relativePath = ''index.html'', dir = False, uncompressedSize = 23,
       content = ''<a href='' @ [dq] @ ''/go?href='' @ [dq] @ ''/x'' @ [dq] @ ''>''\<rparr>])))
     = [''<a href='' @ [dq] @ ''./go?href='' @ [dq] @ ''/x'' @ [dq] @ ''>''] \<and>
   map f_entry (files (fixAbsolutePaths (fixAbsolutePaths (analyzeZip
     [\<lparr>relativePath = ''index.html'', dir = False, uncompressedSize = 23,
       content = ''<a href='' @ [dq] @ ''/go?href='' @ [dq] @ ''/x'' @ [dq] @ ''>''\<rparr>]))))
     = [''<a href='' @ [dq] @ ''./go?href='' @ [dq] @ ''./x'' @ [dq] @ ''>'']"
  by code_simp

end
